theory Spec2Isabelle
  imports Main "HOL-Library.Word"
begin

unbundle bit_operations_syntax

text \<open>
  A model of the key-value store of \<open>main.go\<close> and \<open>log.go\<close>: the nine-byte record header,
  the journal with its buffered writer, replay, and the store's operations on an explicit
  file system. The standard library is modelled where the store depends on its behaviour
  (\<open>os\<close> files, \<open>bufio.Writer\<close>, \<open>hash/crc32\<close>, \<open>sync.Mutex\<close>); \<open>encoding/gob\<close> is a
  parameter. Definitions come first, then the properties.
\<close>

section \<open>Bytes, machine integers and errors\<close>

type_synonym byte = "8 word"
type_synonym uint32 = "32 word"

text \<open>
  Go's \<open>type Op uint8\<close> with \<open>OpSet = iota + 1\<close> and \<open>OpUnset\<close> following it.
  Every byte is a value of the type; only 1 and 2 are named.
\<close>

type_synonym Op = byte

definition OpSet :: Op where
  "OpSet = 1"

definition OpUnset :: Op where
  "OpUnset = 2"

text \<open>
  Errors as values. \<open>Errorf fmt args\<close> is \<open>fmt.Errorf\<close> with integer arguments only
  (a fresh error that wraps nothing); \<open>Wrapf prefix e\<close> is \<open>fmt.Errorf("prefix: %w", e)\<close>.
  \<open>EOF\<close> is \<open>io.EOF\<close>, \<open>PathError\<close> stands for the errors of package \<open>os\<close>,
  \<open>GobError\<close> for those of \<open>encoding/gob\<close>.
\<close>

datatype error =
    ErrNotReady
  | ErrJournalCorrupt
  | EOF
  | PathError
  | GobError
  | Errorf string "nat list"
  | Wrapf string error

text \<open>\<open>errors.Is\<close>: follows the chain of wrapped errors.\<close>

fun errorsIs :: "error \<Rightarrow> error \<Rightarrow> bool" where
  "errorsIs (Wrapf s e) t = (Wrapf s e = t \<or> errorsIs e t)"
| "errorsIs e t = (e = t)"

section \<open>Frame codec (log.go: jEncode, jDecode)\<close>

text \<open>\<open>binary.BigEndian.PutUint32\<close> and \<open>binary.BigEndian.Uint32\<close>.\<close>

definition PutUint32 :: "uint32 \<Rightarrow> byte list" where
  "PutUint32 v = [ucast (drop_bit 24 v), ucast (drop_bit 16 v), ucast (drop_bit 8 v), ucast v]"

definition Uint32 :: "byte list \<Rightarrow> uint32" where
  "Uint32 b = ucast (b ! 3) OR push_bit 8 (ucast (b ! 2)) OR push_bit 16 (ucast (b ! 1))
                OR push_bit 24 (ucast (b ! 0))"

text \<open>
  \<open>jEncode\<close> allocates nine bytes, stores the tag at index 0, the length at \<open>buf[1:5]\<close>
  and the checksum at \<open>buf[5:9]\<close>.
\<close>

definition jEncode :: "Op \<Rightarrow> uint32 \<Rightarrow> uint32 \<Rightarrow> byte list" where
  "jEncode op len crc = op # PutUint32 len @ PutUint32 crc"

text \<open>\<open>jDecode\<close> rejects every slice whose length is not 9 before it reads a byte.\<close>

definition jDecode :: "byte list \<Rightarrow> error + (Op \<times> uint32 \<times> uint32)" where
  "jDecode buf =
     (if length buf \<noteq> 9 then Inl (Errorf ''expected 9 bytes, got %d'' [length buf])
      else Inr (buf ! 0, Uint32 (take 4 (drop 1 buf)), Uint32 (take 4 (drop 5 buf))))"

section \<open>CRC-32 (hash/crc32, IEEE polynomial)\<close>

text \<open>
  The checksum is the standard library's \<open>crc32.ChecksumIEEE\<close>. It is modelled after the
  library's portable implementation: \<open>simplePopulateTable\<close> fills entry \<open>i\<close> of the table
  with eight shift-and-conditionally-xor steps from \<open>uint32(i)\<close>, and \<open>simpleUpdate\<close>
  complements the running value, folds \<open>tab[byte(crc)^v] ^ (crc >> 8)\<close> over the bytes and
  complements again. \<open>ChecksumIEEE\<close> starts from 0.
\<close>

definition IEEE :: uint32 where
  "IEEE = 0xedb88320"

definition polyStep :: "uint32 \<Rightarrow> uint32" where
  "polyStep crc = (if crc AND 1 = 1 then drop_bit 1 crc XOR IEEE else drop_bit 1 crc)"

definition IEEETable :: "byte \<Rightarrow> uint32" where
  "IEEETable i = (polyStep ^^ 8) (ucast i)"

definition byteStep :: "uint32 \<Rightarrow> byte \<Rightarrow> uint32" where
  "byteStep crc v = IEEETable (ucast crc XOR v) XOR drop_bit 8 crc"

fun simpleUpdateLoop :: "uint32 \<Rightarrow> byte list \<Rightarrow> uint32" where
  "simpleUpdateLoop crc [] = crc"
| "simpleUpdateLoop crc (v # p) = simpleUpdateLoop (byteStep crc v) p"

definition ChecksumIEEE :: "byte list \<Rightarrow> uint32" where
  "ChecksumIEEE data = NOT (simpleUpdateLoop (NOT 0) data)"

section \<open>Files and the buffered writer (os, bufio)\<close>

text \<open>
  The file system is a map from path to content. \<open>faulty\<close> is the environment's fault: while
  it is set, every create and every write is refused with an error. A file handle is the
  path it was opened on and whether it has been closed; the journal only ever appends
  through its handle, so a write extends the content.
\<close>

record filesys =
  files :: "string \<rightharpoonup> byte list"
  faulty :: bool

record File =
  path :: string
  closed :: bool

definition osCreate :: "filesys \<Rightarrow> string \<Rightarrow> error + filesys" where
  "osCreate fs nm =
     (if faulty fs then Inl PathError else Inr (fs\<lparr>files := (files fs)(nm \<mapsto> [])\<rparr>))"

definition fileWrite :: "filesys \<Rightarrow> File \<Rightarrow> byte list \<Rightarrow> nat \<times> error option \<times> filesys" where
  "fileWrite fs h p =
     (if closed h \<or> faulty fs then (0, Some PathError, fs)
      else (case files fs (path h) of
              None \<Rightarrow> (0, Some PathError, fs)
            | Some content \<Rightarrow> (length p, None, fs\<lparr>files := (files fs)(path h \<mapsto> content @ p)\<rparr>)))"

definition fileClose :: "File \<Rightarrow> error option \<times> File" where
  "fileClose h = (if closed h then (Some PathError, h) else (None, h\<lparr>closed := True\<rparr>))"

text \<open>
  \<open>(*os.File).Read\<close> on the bytes not yet consumed: a zero-length buffer reads nothing and
  reports no error; at the end of the file a non-empty buffer gets \<open>io.EOF\<close>; otherwise the
  read returns as many bytes as it can, up to the size of the buffer. The result is the bytes
  read and the bytes left.
\<close>

definition fileRead :: "byte list \<Rightarrow> nat \<Rightarrow> error + (byte list \<times> byte list)" where
  "fileRead rest n =
     (if n = 0 then Inr ([], rest)
      else if rest = [] then Inl EOF
      else Inr (take n rest, drop n rest))"

text \<open>
  \<open>bufio.Writer\<close> with the default size: the pending bytes and the sticky error. The
  underlying writer is the journal's file handle, passed alongside.
\<close>

record Writer =
  buf :: "byte list"
  err :: "error option"

definition defaultBufSize :: nat where
  "defaultBufSize = 4096"

definition NewWriter :: Writer where
  "NewWriter = \<lparr>buf = [], err = None\<rparr>"

definition bufFlush :: "filesys \<Rightarrow> File \<Rightarrow> Writer \<Rightarrow> error option \<times> filesys \<times> Writer" where
  "bufFlush fs h w =
     (case err w of
        Some e \<Rightarrow> (Some e, fs, w)
      | None \<Rightarrow>
          if buf w = [] then (None, fs, w)
          else (case fileWrite fs h (buf w) of
                  (n, Some e, fs') \<Rightarrow> (Some e, fs', w\<lparr>buf := drop n (buf w), err := Some e\<rparr>)
                | (n, None, fs') \<Rightarrow> (None, fs', w\<lparr>buf := []\<rparr>)))"

text \<open>
  \<open>(*bufio.Writer).Write\<close>: while the data does not fit the free space and no error is
  pending, either write it through (empty buffer) or fill the buffer and flush; then copy
  what is left into the buffer. The result is the count written, the error, and the new
  file system and writer.
\<close>

function bufWrite ::
  "filesys \<Rightarrow> File \<Rightarrow> Writer \<Rightarrow> nat \<Rightarrow> byte list \<Rightarrow> nat \<times> error option \<times> filesys \<times> Writer" where
  "bufWrite fs h w nn p =
     (if length p > defaultBufSize - length (buf w) \<and> err w = None then
        (if buf w = [] then
           (case fileWrite fs h p of
              (n, e, fs') \<Rightarrow> bufWrite fs' h (w\<lparr>err := e\<rparr>) (nn + n) (drop n p))
         else
           (let n = min (defaultBufSize - length (buf w)) (length p) in
            case bufFlush fs h (w\<lparr>buf := buf w @ take n p\<rparr>) of
              (e, fs', w') \<Rightarrow> bufWrite fs' h w' (nn + n) (drop n p)))
      else (case err w of
              Some e \<Rightarrow> (nn, Some e, fs, w)
            | None \<Rightarrow> (nn + length p, None, fs, w\<lparr>buf := buf w @ p\<rparr>)))"
  by pat_completeness auto
termination
  apply (relation "measure (\<lambda>(fs, h, w, nn, p).
         if err w \<noteq> None then 0 else 2 * length p + (if buf w = [] then 1 else 2))")
    apply simp
   apply (auto simp: fileWrite_def split: if_splits option.splits)[1]
  apply (auto simp: bufFlush_def fileWrite_def split: if_splits option.splits)[1]
  done

declare bufWrite.simps [simp del]

section \<open>Transactions and the gob codec\<close>

text \<open>
  A value of Go's \<open>any\<close> is \<open>None\<close> for the nil interface and \<open>Some v\<close> otherwise, over
  a type \<open>'v\<close> of concrete values. \<open>Tx\<close> is the journal's payload struct.
\<close>

type_synonym 'v any = "'v option"

type_synonym 'v kvMap = "string \<rightharpoonup> 'v any"

record 'v Tx =
  Key :: string
  Value :: "'v any"

text \<open>
  \<open>encoding/gob\<close> is a library outside the repository; the store uses it at two types, a
  \<open>Tx\<close> for journal payloads and the whole \<open>kvMap\<close> for the snapshot. It is a parameter of
  the model: an encoder that may fail (\<open>None\<close>) and a decoder that may fail, at each of the
  two types. A fresh encoder and decoder is made for every payload, so each call is
  independent of the others.
\<close>

record 'v gob =
  encTx :: "'v Tx \<Rightarrow> byte list option"
  decTx :: "byte list \<Rightarrow> 'v Tx option"
  encMap :: "'v kvMap \<Rightarrow> byte list option"
  decMap :: "byte list \<Rightarrow> 'v kvMap option"

section \<open>The journal handle and the store\<close>

record journal =
  fh :: File
  bufWriter :: Writer
  name :: string

text \<open>
  The store: the map, the snapshot's file name, the journal, the mutex (\<open>mu\<close> is true while
  it is held) and the readiness flag. \<open>lastFlush\<close> is a wall-clock time that nothing reads;
  it is left out.

  \<open>sync.Mutex\<close> is not reentrant: \<open>Lock\<close> on a held mutex does not return. An operation of
  the store therefore yields an option, and \<open>None\<close> is the call that never returns.
\<close>

record 'v KV =
  memory :: "'v kvMap"
  fileName :: string
  journal :: journal
  mu :: bool
  ready :: bool

section \<open>Journal (log.go)\<close>

text \<open>
  The \<open>switch\<close> at the end of the loop body of \<open>play\<close>: it has a case for \<open>OpSet\<close>, a
  case for \<open>OpUnset\<close> and no default.
\<close>

definition applyTx :: "Op \<Rightarrow> 'v Tx \<Rightarrow> 'v kvMap \<Rightarrow> 'v kvMap" where
  "applyTx op tx m =
     (if op = OpSet then m(Key tx \<mapsto> Value tx)
      else if op = OpUnset then m(Key tx := None)
      else m)"

text \<open>
  The loop of \<open>play\<close>, on the bytes of the journal not yet read. The map is updated in
  place in the source, so the map is returned with the error as well: on an error it holds
  the effect of every record applied before.
\<close>

function playLoop :: "'v gob \<Rightarrow> byte list \<Rightarrow> 'v kvMap \<Rightarrow> error option \<times> 'v kvMap" where
  "playLoop g rest m =
     (case fileRead rest 9 of
        Inl e \<Rightarrow> (if e = EOF then (None, m) else (Some (Wrapf ''read header'' e), m))
      | Inr (header, rest1) \<Rightarrow>
          if length header \<noteq> 9
          then (Some (Errorf ''read header: expected 9 bytes, got %d'' [length header]), m)
          else (case jDecode header of
                  Inl e \<Rightarrow> (Some (Wrapf ''decode header'' e), m)
                | Inr (op, buflen, checksum) \<Rightarrow>
                    (case fileRead rest1 (unat buflen) of
                       Inl e \<Rightarrow> (Some (Wrapf ''read buffer'' e), m)
                     | Inr (pbuf, rest2) \<Rightarrow>
                         if length pbuf \<noteq> unat buflen
                         then (Some (Errorf ''read buffer: expected %d bytes, got %d''
                                       [unat buflen, length pbuf]), m)
                         else if ChecksumIEEE pbuf \<noteq> checksum then (Some ErrJournalCorrupt, m)
                         else (case decTx g pbuf of
                                 None \<Rightarrow> (Some (Wrapf ''decode tx'' GobError), m)
                               | Some tx \<Rightarrow>
                                   playLoop g rest2 (applyTx op tx m)))))"
  by pat_completeness auto
termination
  apply (relation "measure (\<lambda>(g, rest, m). length rest)")
   apply simp
  apply (auto simp: fileRead_def split: if_splits)
  done

declare playLoop.simps [simp del]

definition play :: "'v gob \<Rightarrow> filesys \<Rightarrow> string \<Rightarrow> 'v kvMap \<Rightarrow> error option \<times> 'v kvMap" where
  "play g fs filename m =
     (case files fs filename of
        None \<Rightarrow> (Some (Wrapf ''open journal'' PathError), m)
      | Some content \<Rightarrow> playLoop g content m)"

text \<open>
  \<open>newJournal\<close>: replay when \<open>os.Stat\<close> finds the file, then \<open>os.Create\<close> it, which
  truncates it. The result carries the map as replay left it.
\<close>

definition newJournal ::
  "'v gob \<Rightarrow> filesys \<Rightarrow> string \<Rightarrow> 'v kvMap \<Rightarrow> filesys \<times> (error + (journal \<times> 'v kvMap))" where
  "newJournal g fs filename kv =
     (case (if files fs filename \<noteq> None then play g fs filename kv else (None, kv)) of
        (Some e, kv') \<Rightarrow> (fs, Inl (Wrapf ''play'' e))
      | (None, kv') \<Rightarrow>
          (case osCreate fs filename of
             Inl e \<Rightarrow> (fs, Inl (Wrapf ''create'' e))
           | Inr fs' \<Rightarrow>
               (fs', Inr (\<lparr>fh = \<lparr>path = filename, closed = False\<rparr>,
                           bufWriter = NewWriter, name = filename\<rparr>, kv'))))"

definition flush :: "filesys \<Rightarrow> journal \<Rightarrow> error option \<times> filesys \<times> journal" where
  "flush fs j =
     (case bufFlush fs (fh j) (bufWriter j) of
        (Some e, fs', w') \<Rightarrow> (Some (Wrapf ''flush'' e), fs', j\<lparr>bufWriter := w'\<rparr>)
      | (None, fs', w') \<Rightarrow> (None, fs', j\<lparr>bufWriter := w'\<rparr>))"

definition close :: "filesys \<Rightarrow> journal \<Rightarrow> error option \<times> filesys \<times> journal" where
  "close fs j =
     (case flush fs j of
        (Some e, fs', j') \<Rightarrow> (Some (Wrapf ''flush journal'' e), fs', j')
      | (None, fs', j') \<Rightarrow>
          (case fileClose (fh j') of
             (Some e, h') \<Rightarrow> (Some (Wrapf ''close journal'' e), fs', j'\<lparr>fh := h'\<rparr>)
           | (None, h') \<Rightarrow> (None, fs', j'\<lparr>fh := h'\<rparr>)))"

definition truncate :: "filesys \<Rightarrow> journal \<Rightarrow> error option \<times> filesys \<times> journal" where
  "truncate fs j =
     (case close fs j of
        (Some e, fs', j') \<Rightarrow> (Some (Wrapf ''close'' e), fs', j')
      | (None, fs', j') \<Rightarrow>
          (case osCreate fs' (name j') of
             Inl e \<Rightarrow> (Some (Wrapf ''truncate: create'' e), fs', j')
           | Inr fs'' \<Rightarrow>
               (None, fs'', j'\<lparr>fh := \<lparr>path = name j', closed = False\<rparr>,
                                 bufWriter := NewWriter\<rparr>)))"

text \<open>
  \<open>log\<close>: encode the transaction, take its length as a \<open>uint32\<close> (the conversion wraps
  modulo \<open>2^32\<close>) and its checksum, write header and payload to the buffered writer, and
  compare each count written with the count expected (\<open>int(buflen)\<close> is the unsigned value
  on a 64-bit platform).
\<close>

definition log ::
  "'v gob \<Rightarrow> filesys \<Rightarrow> journal \<Rightarrow> Op \<Rightarrow> string \<Rightarrow> 'v any \<Rightarrow> error option \<times> filesys \<times> journal" where
  "log g fs j op key val =
     (case encTx g \<lparr>Key = key, Value = val\<rparr> of
        None \<Rightarrow> (Some (Wrapf ''encode tx'' GobError), fs, j)
      | Some payload \<Rightarrow>
          (let buflen = (of_nat (length payload) :: uint32);
               checksum = ChecksumIEEE payload;
               header = jEncode op buflen checksum
           in case bufWrite fs (fh j) (bufWriter j) 0 header of
                (n, Some e, fs1, w1) \<Rightarrow> (Some (Wrapf ''write header'' e), fs1, j\<lparr>bufWriter := w1\<rparr>)
              | (n, None, fs1, w1) \<Rightarrow>
                  if n \<noteq> 9
                  then (Some (Errorf ''header write: expected 9 bytes, got %d'' [n]), fs1,
                        j\<lparr>bufWriter := w1\<rparr>)
                  else (case bufWrite fs1 (fh j) w1 0 payload of
                          (n', Some e, fs2, w2) \<Rightarrow>
                            (Some (Wrapf ''write buffer'' e), fs2, j\<lparr>bufWriter := w2\<rparr>)
                        | (n', None, fs2, w2) \<Rightarrow>
                            if n' \<noteq> unat buflen
                            then (Some (Errorf ''buffer write: expected %d bytes, got %d''
                                          [unat buflen, n']), fs2, j\<lparr>bufWriter := w2\<rparr>)
                            else (None, fs2, j\<lparr>bufWriter := w2\<rparr>))))"

section \<open>Store coordinator (main.go)\<close>

definition Lock :: "'v KV \<Rightarrow> 'v KV option" where
  "Lock kv = (if mu kv then None else Some (kv\<lparr>mu := True\<rparr>))"

definition Unlock :: "'v KV \<Rightarrow> 'v KV" where
  "Unlock kv = kv\<lparr>mu := False\<rparr>"

definition loadFromGob :: "'v gob \<Rightarrow> filesys \<Rightarrow> string \<Rightarrow> error + 'v kvMap" where
  "loadFromGob g fs dbName =
     (case files fs dbName of
        None \<Rightarrow> Inl (Wrapf ''opening file'' PathError)
      | Some content \<Rightarrow>
          (case decMap g content of
             None \<Rightarrow> Inl (Wrapf ''decoding map'' GobError)
           | Some m \<Rightarrow> Inr m))"

definition createEmptyGob :: "'v gob \<Rightarrow> filesys \<Rightarrow> string \<Rightarrow> error option \<times> filesys" where
  "createEmptyGob g fs dbName =
     (case osCreate fs dbName of
        Inl e \<Rightarrow> (Some (Wrapf ''creating file'' e), fs)
      | Inr fs1 \<Rightarrow>
          (case encMap g Map.empty of
             None \<Rightarrow> (Some (Wrapf ''createEmptyGob: encoding map'' GobError), fs1)
           | Some content \<Rightarrow>
               (case fileWrite fs1 \<lparr>path = dbName, closed = False\<rparr> content of
                  (n, Some e, fs2) \<Rightarrow> (Some (Wrapf ''createEmptyGob: encoding map'' e), fs2)
                | (n, None, fs2) \<Rightarrow> (None, fs2))))"

text \<open>
  \<open>New\<close>: load the snapshot when \<open>os.Stat\<close> finds it and write an empty one otherwise,
  then let \<open>newJournal\<close> replay and recreate the journal. No store is returned on an error.
\<close>

definition New :: "'v gob \<Rightarrow> filesys \<Rightarrow> string \<Rightarrow> string \<Rightarrow> filesys \<times> (error + 'v KV)" where
  "New g fs dbName walName =
     (case (case files fs dbName of
              Some _ \<Rightarrow>
                (case loadFromGob g fs dbName of
                   Inl e \<Rightarrow> (fs, Inl (Wrapf ''loading from existing gob'' e))
                 | Inr m \<Rightarrow> (fs, Inr m))
            | None \<Rightarrow>
                (case createEmptyGob g fs dbName of
                   (Some e, fs1) \<Rightarrow> (fs1, Inl (Wrapf ''creating empty gob'' e))
                 | (None, fs1) \<Rightarrow> (fs1, Inr Map.empty))) of
        (fs1, Inl e) \<Rightarrow> (fs1, Inl e)
      | (fs1, Inr m) \<Rightarrow>
          (case newJournal g fs1 walName m of
             (fs2, Inl e) \<Rightarrow> (fs2, Inl (Wrapf ''creating journal'' e))
           | (fs2, Inr (j, m')) \<Rightarrow>
               (fs2, Inr \<lparr>memory = m', fileName = dbName, journal = j, mu = False,
                          ready = True\<rparr>)))"

definition dump :: "'v gob \<Rightarrow> filesys \<Rightarrow> 'v KV \<Rightarrow> error option \<times> filesys" where
  "dump g fs kv =
     (if \<not> ready kv then (Some ErrNotReady, fs)
      else (case osCreate fs (fileName kv) of
              Inl e \<Rightarrow> (Some (Wrapf ''creating file'' e), fs)
            | Inr fs1 \<Rightarrow>
                (case encMap g (memory kv) of
                   None \<Rightarrow> (Some (Wrapf ''encoding map'' GobError), fs1)
                 | Some content \<Rightarrow>
                     (case fileWrite fs1 \<lparr>path = fileName kv, closed = False\<rparr> content of
                        (n, Some e, fs2) \<Rightarrow> (Some (Wrapf ''encoding map'' e), fs2)
                      | (n, None, fs2) \<Rightarrow>
                          (case fileClose \<lparr>path = fileName kv, closed = False\<rparr> of
                             (Some e, h') \<Rightarrow> (Some (Wrapf ''closing file'' e), fs2)
                           | (None, h') \<Rightarrow> (None, fs2))))))"

text \<open>\<open>Coalesce\<close> holds the mutex from the readiness check to its return (deferred unlock).\<close>

definition Coalesce :: "'v gob \<Rightarrow> filesys \<Rightarrow> 'v KV \<Rightarrow> (error option \<times> filesys \<times> 'v KV) option" where
  "Coalesce g fs kv =
     (if \<not> ready kv then Some (Some ErrNotReady, fs, kv)
      else (case Lock kv of
              None \<Rightarrow> None
            | Some kv1 \<Rightarrow>
                (case dump g fs kv1 of
                   (Some e, fs1) \<Rightarrow> Some (Some (Wrapf ''dumping memory'' e), fs1, Unlock kv1)
                 | (None, fs1) \<Rightarrow>
                     (case truncate fs1 (journal kv1) of
                        (Some e, fs2, j') \<Rightarrow>
                          Some (Some (Wrapf ''truncating journal'' e), fs2,
                                Unlock (kv1\<lparr>journal := j'\<rparr>))
                      | (None, fs2, j') \<Rightarrow> Some (None, fs2, Unlock (kv1\<lparr>journal := j'\<rparr>))))))"


definition Close :: "filesys \<Rightarrow> 'v KV \<Rightarrow> (error option \<times> filesys \<times> 'v KV) option" where
  "Close fs kv =
     (if \<not> ready kv then Some (Some ErrNotReady, fs, kv)
      else (case Lock kv of
              None \<Rightarrow> None
            | Some kv1 \<Rightarrow>
                (case close fs (journal kv1) of
                   (Some e, fs', j') \<Rightarrow>
                     Some (Some (Wrapf ''closing journal'' e), fs', Unlock (kv1\<lparr>journal := j'\<rparr>))
                 | (None, fs', j') \<Rightarrow>
                     Some (None, fs', Unlock (kv1\<lparr>journal := j', ready := False\<rparr>)))))"

text \<open>
  \<open>Set\<close>: store under the mutex, release it, append to the journal. The error of the append
  is printed and dropped; the function returns nil on every path after the readiness check.
\<close>

definition Set ::
  "'v gob \<Rightarrow> filesys \<Rightarrow> 'v KV \<Rightarrow> string \<Rightarrow> 'v any \<Rightarrow> (error option \<times> filesys \<times> 'v KV) option" where
  "Set g fs kv key val =
     (if \<not> ready kv then Some (Some ErrNotReady, fs, kv)
      else (case Lock kv of
              None \<Rightarrow> None
            | Some kv1 \<Rightarrow>
                (let kv2 = Unlock (kv1\<lparr>memory := (memory kv1)(key \<mapsto> val)\<rparr>) in
                 case log g fs (journal kv2) OpSet key val of
                   (e, fs', j') \<Rightarrow> Some (None, fs', kv2\<lparr>journal := j'\<rparr>))))"

text \<open>
  \<open>Unset\<close>: take the mutex and look the key up. When the key is absent the function returns
  \<open>(true, nil)\<close> at once, with the mutex still held. Otherwise it releases the mutex and
  appends an Unset record with a nil value; the map itself is not touched on either path.
\<close>

definition Unset ::
  "'v gob \<Rightarrow> filesys \<Rightarrow> 'v KV \<Rightarrow> string \<Rightarrow> ((bool \<times> error option) \<times> filesys \<times> 'v KV) option" where
  "Unset g fs kv key =
     (if \<not> ready kv then Some ((False, Some ErrNotReady), fs, kv)
      else (case Lock kv of
              None \<Rightarrow> None
            | Some kv1 \<Rightarrow>
                (case memory kv1 key of
                   None \<Rightarrow> Some ((True, None), fs, kv1)
                 | Some _ \<Rightarrow>
                     (let kv2 = Unlock kv1 in
                      case log g fs (journal kv2) OpUnset key None of
                        (Some e, fs', j') \<Rightarrow>
                          Some ((True, Some (Wrapf ''journaling'' e)), fs', kv2\<lparr>journal := j'\<rparr>)
                      | (None, fs', j') \<Rightarrow> Some ((True, None), fs', kv2\<lparr>journal := j'\<rparr>)))))"

text \<open>
  \<open>Get\<close>: the value (nil when absent), whether the key was found, and the error. The source
  replaces a nil map by an empty one first; the two read alike, and the model has one map for
  both.
\<close>

definition Get :: "'v KV \<Rightarrow> string \<Rightarrow> (('v any \<times> bool \<times> error option) \<times> 'v KV) option" where
  "Get kv key =
     (if \<not> ready kv then Some ((None, False, Some ErrNotReady), kv)
      else (case Lock kv of
              None \<Rightarrow> None
            | Some kv1 \<Rightarrow>
                (case memory kv1 key of
                   None \<Rightarrow> Some ((None, False, None), Unlock kv1)
                 | Some v \<Rightarrow> Some ((v, True, None), Unlock kv1))))"

section \<open>Records as they lie in the journal\<close>

text \<open>
  One record on disk: the header for a tag, the payload's length as a \<open>uint32\<close> and a
  checksum field, followed by the payload. \<open>recordBytes\<close> is the record that \<open>log\<close> emits
  for an operation, key and value (nothing when the encoder refuses the transaction), and
  \<open>logAll\<close> appends a list of operations one after the other, stopping at the first error.
\<close>

definition frame :: "Op \<Rightarrow> uint32 \<Rightarrow> byte list \<Rightarrow> byte list" where
  "frame op checksum payload = jEncode op (of_nat (length payload)) checksum @ payload"

definition recordBytes :: "'v gob \<Rightarrow> Op \<times> string \<times> 'v any \<Rightarrow> byte list" where
  "recordBytes g r =
     (case r of (op, key, val) \<Rightarrow>
        (case encTx g \<lparr>Key = key, Value = val\<rparr> of
           None \<Rightarrow> []
         | Some payload \<Rightarrow> frame op (ChecksumIEEE payload) payload))"

fun logAll ::
  "'v gob \<Rightarrow> filesys \<Rightarrow> journal \<Rightarrow> (Op \<times> string \<times> 'v any) list \<Rightarrow> error option \<times> filesys \<times> journal" where
  "logAll g fs j [] = (None, fs, j)"
| "logAll g fs j ((op, key, val) # rs) =
     (case log g fs j op key val of
        (Some e, fs', j') \<Rightarrow> (Some e, fs', j')
      | (None, fs', j') \<Rightarrow> logAll g fs' j' rs)"

section \<open>A concrete codec and store\<close>

text \<open>
  The results below hold for every codec. To apply them to concrete inputs, here is a small
  codec over byte values: a transaction is the length of its key in one byte, the key, and
  the value byte when there is one (keys of 256 characters or more are refused); a snapshot
  lists, for each key of a fixed pair of keys, whether it is absent, nil or bound to a byte.
  \<open>sampleFs\<close> and \<open>sampleKV\<close> are the file system and the store that \<open>New\<close> returns on an
  empty file system.
\<close>

definition sampleEncTx :: "byte Tx \<Rightarrow> byte list option" where
  "sampleEncTx tx =
     (if length (Key tx) < 256
      then Some (of_nat (length (Key tx)) # map (\<lambda>c. of_nat (of_char c)) (Key tx)
                 @ (case Value tx of None \<Rightarrow> [] | Some b \<Rightarrow> [b]))
      else None)"

definition sampleDecTx :: "byte list \<Rightarrow> byte Tx option" where
  "sampleDecTx bs =
     (case bs of
        [] \<Rightarrow> None
      | n # rest \<Rightarrow>
          if length rest < unat n then None
          else (case drop (unat n) rest of
                  [] \<Rightarrow> Some \<lparr>Key = map (\<lambda>b. char_of (unat b)) (take (unat n) rest), Value = None\<rparr>
                | [b] \<Rightarrow> Some \<lparr>Key = map (\<lambda>b. char_of (unat b)) (take (unat n) rest), Value = Some b\<rparr>
                | _ \<Rightarrow> None))"

definition sampleKeys :: "string list" where
  "sampleKeys = [''foo'', ''bar'']"

fun encEntries :: "string list \<Rightarrow> byte kvMap \<Rightarrow> byte list" where
  "encEntries [] m = []"
| "encEntries (k # ks) m =
     (case m k of None \<Rightarrow> [0] | Some None \<Rightarrow> [1] | Some (Some b) \<Rightarrow> [2, b]) @ encEntries ks m"

fun decEntries :: "string list \<Rightarrow> byte list \<Rightarrow> byte kvMap option" where
  "decEntries [] bs = (if bs = [] then Some Map.empty else None)"
| "decEntries (k # ks) [] = None"
| "decEntries (k # ks) (t # bs) =
     (if t = 0 then decEntries ks bs
      else if t = 1 then map_option (\<lambda>m. m(k \<mapsto> None)) (decEntries ks bs)
      else if t = 2 then
        (case bs of
           [] \<Rightarrow> None
         | b # bs' \<Rightarrow> map_option (\<lambda>m. m(k \<mapsto> Some b)) (decEntries ks bs'))
      else None)"

definition sampleGob :: "byte gob" where
  "sampleGob = \<lparr>encTx = sampleEncTx, decTx = sampleDecTx,
                 encMap = (\<lambda>m. Some (encEntries sampleKeys m)),
                 decMap = decEntries sampleKeys\<rparr>"

definition sampleFs :: filesys where
  "sampleFs = \<lparr>files = [''db'' \<mapsto> [0, 0], ''wal'' \<mapsto> []], faulty = False\<rparr>"

definition sampleKV :: "byte KV" where
  "sampleKV = \<lparr>memory = Map.empty, fileName = ''db'',
                journal = \<lparr>fh = \<lparr>path = ''wal'', closed = False\<rparr>, bufWriter = NewWriter,
                            name = ''wal''\<rparr>,
                mu = False, ready = True\<rparr>"

definition samplePayload :: "string \<Rightarrow> byte any \<Rightarrow> byte list" where
  "samplePayload k v = the (sampleEncTx \<lparr>Key = k, Value = v\<rparr>)"






section \<open>Properties of the frame codec\<close>

lemma Uint32_PutUint32: "Uint32 (PutUint32 v) = v"
  unfolding Uint32_def PutUint32_def
  apply (rule bit_word_eqI)
  subgoal for n
    apply (cases "n < 8")
     apply (simp add: bit_simps)
    apply (cases "n < 16")
     apply (auto simp add: bit_simps)[1]
    apply (cases "n < 24")
     apply (auto simp add: bit_simps)[1]
    apply (auto simp add: bit_simps)[1]
    done
  done

lemma unat_byte_of:
  "unat (ucast (drop_bit k (v::uint32)) :: byte) = (unat v div 2 ^ k) mod 256"
  by (simp add: unsigned_ucast_eq unat_drop_bit_eq take_bit_eq_mod) (simp add: drop_bit_eq_div)

lemma base256:
  fixes x :: nat
  assumes "x < 2 ^ 32"
  shows "x = (x div 2 ^ 24 mod 256) * 2 ^ 24 + (x div 2 ^ 16 mod 256) * 2 ^ 16
             + (x div 2 ^ 8 mod 256) * 2 ^ 8 + x mod 256"
proof -
  define y1 where "y1 = x div 256"
  define y2 where "y2 = y1 div 256"
  define y3 where "y3 = y2 div 256"
  have e1: "x = y1 * 256 + x mod 256" unfolding y1_def by simp
  have e2: "y1 = y2 * 256 + y1 mod 256" unfolding y2_def by simp
  have e3: "y2 = y3 * 256 + y2 mod 256" unfolding y3_def by simp
  have d1: "x div 2 ^ 8 = y1" unfolding y1_def by simp
  have d2: "x div 2 ^ 16 = y2" unfolding y2_def y1_def by (simp add: div_mult2_eq)
  have d3: "x div 2 ^ 24 = y3" unfolding y3_def y2_def y1_def by (simp add: div_mult2_eq)
  have "y3 < 256" using assms unfolding d3[symmetric] by (simp add: less_mult_imp_div_less)
  then have m3: "y3 mod 256 = y3" by simp
  show ?thesis unfolding d1 d2 d3 m3 using e1 e2 e3 by simp
qed

lemma PutUint32_big_endian:
  "unat v = unat (PutUint32 v ! 0) * 2 ^ 24 + unat (PutUint32 v ! 1) * 2 ^ 16
            + unat (PutUint32 v ! 2) * 2 ^ 8 + unat (PutUint32 v ! 3)"
proof -
  have lt: "unat v < 2 ^ 32" using unsigned_less[of v] by simp
  have b0: "unat (PutUint32 v ! 0) = unat v div 2 ^ 24 mod 256"
    unfolding PutUint32_def by (simp only: nth_Cons_0 unat_byte_of)
  have b1: "unat (PutUint32 v ! 1) = unat v div 2 ^ 16 mod 256"
    unfolding PutUint32_def by (simp only: nth_Cons_0 nth_Cons_Suc One_nat_def unat_byte_of)
  have b2: "unat (PutUint32 v ! 2) = unat v div 2 ^ 8 mod 256"
    unfolding PutUint32_def
    by (simp only: nth_Cons_0 nth_Cons_numeral nth_Cons_Suc unat_byte_of numeral_2_eq_2)
  have b3: "unat (PutUint32 v ! 3) = unat v mod 256"
    unfolding PutUint32_def using unat_byte_of[of 0 v] by simp
  show ?thesis unfolding b0 b1 b2 b3 by (rule base256[OF lt])
qed

lemma length_PutUint32: "length (PutUint32 v) = 4"
  by (simp add: PutUint32_def)

lemma length_jEncode: "length (jEncode op len crc) = 9"
  by (simp add: jEncode_def length_PutUint32)

lemma jDecode_jEncode: "jDecode (jEncode op len crc) = Inr (op, len, crc)"
  by (simp add: jDecode_def jEncode_def length_PutUint32 Uint32_PutUint32)

section \<open>Properties of the checksum\<close>

text \<open>
  A step of the table's inner loop is linear over exclusive-or and injective, because the
  polynomial has its top bit set. Hence one step of the byte loop is
  \<open>(polyStep ^^ 8) (crc XOR v)\<close>, injective in the running value and in the byte, and two
  inputs that differ in exactly one byte have different checksums.
\<close>

lemma polyStep_odd: "polyStep crc = (if odd crc then drop_bit 1 crc XOR IEEE else drop_bit 1 crc)"
  by (simp add: polyStep_def and_one_eq odd_iff_mod_2_eq_one)

lemma polyStep_xor: "polyStep (a XOR b) = polyStep a XOR polyStep b"
  by (simp add: polyStep_odd even_xor_iff ac_simps)

lemma xor_eq_zero_word: "(a::uint32) XOR b = 0 \<Longrightarrow> a = b"
proof -
  assume h: "a XOR b = 0"
  have "a = (a XOR b) XOR b" by (simp add: xor.assoc)
  also have "\<dots> = b" by (simp add: h)
  finally show ?thesis .
qed

lemma drop1_ne_IEEE: "drop_bit 1 (a::uint32) \<noteq> IEEE"
proof
  assume "drop_bit 1 a = IEEE"
  then have "unat (drop_bit 1 a) = unat IEEE" by simp
  moreover have "unat (drop_bit 1 a) = drop_bit 1 (unat a)" by (rule unat_drop_bit_eq)
  moreover have "drop_bit 1 (unat a) = unat a div 2" by (simp add: drop_bit_eq_div)
  moreover have "unat a div 2 < 2147483648"
  proof -
    have "unat a < 2 ^ LENGTH(32)" by (rule unsigned_less)
    then show ?thesis by simp
  qed
  moreover have "unat IEEE = 3988292384" by (simp add: IEEE_def)
  ultimately show False by simp
qed

lemma polyStep_zero: "polyStep a = 0 \<Longrightarrow> a = 0"
proof -
  assume h: "polyStep a = 0"
  show "a = 0"
  proof (cases "odd a")
    case True
    with h have "drop_bit 1 a XOR IEEE = 0" by (simp add: polyStep_odd)
    then have "drop_bit 1 a = IEEE" by (rule xor_eq_zero_word)
    with drop1_ne_IEEE show ?thesis by simp
  next
    case False
    with h have d: "drop_bit 1 a = 0" by (simp add: polyStep_odd)
    show ?thesis
    proof (rule bit_word_eqI)
      fix n assume "n < LENGTH(32)"
      show "bit a n = bit (0::uint32) n"
      proof (cases n)
        case 0 with False show ?thesis by (simp add: bit_0)
      next
        case (Suc m)
        have "bit a (Suc m) = bit (drop_bit 1 a) m" by (simp add: bit_drop_bit_eq)
        with d Suc show ?thesis by simp
      qed
    qed
  qed
qed

lemma polyStep_inj: "polyStep a = polyStep b \<Longrightarrow> a = b"
proof -
  assume "polyStep a = polyStep b"
  then have "polyStep (a XOR b) = 0" by (simp add: polyStep_xor)
  then have "a XOR b = 0" by (rule polyStep_zero)
  then show "a = b" by (rule xor_eq_zero_word)
qed

lemma polyStep_pow_xor: "(polyStep ^^ n) (a XOR b) = (polyStep ^^ n) a XOR (polyStep ^^ n) b"
  by (induction n) (simp_all add: polyStep_xor)

lemma polyStep_pow_inj: "(polyStep ^^ n) a = (polyStep ^^ n) b \<Longrightarrow> a = b"
  by (induction n) (auto dest: polyStep_inj)

lemma polyStep_pow_shift: "take_bit n x = 0 \<Longrightarrow> (polyStep ^^ n) x = drop_bit n x"
proof (induction n)
  case 0
  then show ?case by simp
next
  case (Suc n)
  have nb: "\<And>k. k < Suc n \<Longrightarrow> \<not> bit x k"
  proof -
    fix k assume "k < Suc n"
    then have "bit (take_bit (Suc n) x) k = bit x k" by (simp add: bit_take_bit_iff)
    with Suc.prems show "\<not> bit x k" by simp
  qed
  have t: "take_bit n x = 0"
    by (rule bit_word_eqI) (simp add: bit_take_bit_iff nb)
  have ev: "even (drop_bit n x)"
    using nb[of n] by (simp add: bit_iff_odd_drop_bit)
  have "(polyStep ^^ Suc n) x = polyStep (drop_bit n x)" using Suc.IH[OF t] by simp
  also have "\<dots> = drop_bit 1 (drop_bit n x)" using ev by (simp add: polyStep_odd)
  also have "\<dots> = drop_bit (Suc n) x" by (simp add: drop_bit_drop_bit)
  finally show ?case .
qed

lemma split_low: "(crc::uint32) XOR ucast (v::byte) = ucast (ucast crc XOR v :: byte) XOR push_bit 8 (drop_bit 8 crc)"
  apply (rule bit_word_eqI)
  subgoal for n
    by (cases "n < 8") (auto simp: bit_simps)
  done

lemma byteStep_alt: "byteStep crc v = (polyStep ^^ 8) (crc XOR ucast v)"
proof -
  have "take_bit 8 (push_bit 8 (drop_bit 8 crc)) = 0"
    by (rule bit_word_eqI) (simp add: bit_simps)
  then have "(polyStep ^^ 8) (push_bit 8 (drop_bit 8 crc)) = drop_bit 8 (push_bit 8 (drop_bit 8 crc))"
    by (rule polyStep_pow_shift)
  also have "\<dots> = drop_bit 8 crc"
    by (rule bit_word_eqI) (auto simp add: bit_simps dest: bit_imp_le_length)
  finally have hi: "(polyStep ^^ 8) (push_bit 8 (drop_bit 8 crc)) = drop_bit 8 crc" .
  show ?thesis
    unfolding byteStep_def IEEETable_def
    by (subst split_low) (simp only: polyStep_pow_xor hi)
qed

lemma byteStep_inj_crc: "byteStep c v = byteStep c' v \<Longrightarrow> c = c'"
proof -
  assume "byteStep c v = byteStep c' v"
  then have "c XOR ucast v = c' XOR ucast v"
    unfolding byteStep_alt by (rule polyStep_pow_inj)
  then have "(c XOR ucast v) XOR ucast v = (c' XOR ucast v) XOR ucast v" by simp
  then show ?thesis by (simp add: xor.assoc)
qed

lemma byteStep_inj_byte: "byteStep c v = byteStep c v' \<Longrightarrow> v = v'"
proof -
  assume "byteStep c v = byteStep c v'"
  then have "c XOR ucast v = c XOR ucast v'"
    unfolding byteStep_alt by (rule polyStep_pow_inj)
  then have "c XOR (c XOR ucast v) = c XOR (c XOR ucast v')" by simp
  then have "(ucast v :: uint32) = ucast v'" by (simp add: xor.assoc[symmetric])
  then have "(ucast (ucast v :: uint32) :: byte) = ucast (ucast v' :: uint32)" by simp
  then show ?thesis by (simp add: ucast_up_ucast_id is_up)
qed

lemma simpleUpdateLoop_inj: "simpleUpdateLoop c p = simpleUpdateLoop c' p \<Longrightarrow> c = c'"
  by (induction p arbitrary: c c') (auto dest: byteStep_inj_crc)

lemma simpleUpdateLoop_append: "simpleUpdateLoop c (p @ q) = simpleUpdateLoop (simpleUpdateLoop c p) q"
  by (induction p arbitrary: c) simp_all

lemma ChecksumIEEE_byte_change:
  assumes "b \<noteq> b'"
  shows "ChecksumIEEE (p @ b # q) \<noteq> ChecksumIEEE (p @ b' # q)"
proof
  assume "ChecksumIEEE (p @ b # q) = ChecksumIEEE (p @ b' # q)"
  then have "simpleUpdateLoop (NOT 0) (p @ b # q) = simpleUpdateLoop (NOT 0) (p @ b' # q)"
    by (simp add: ChecksumIEEE_def)
  then have "byteStep (simpleUpdateLoop (NOT 0) p) b = byteStep (simpleUpdateLoop (NOT 0) p) b'"
    by (simp add: simpleUpdateLoop_append) (rule simpleUpdateLoop_inj)
  then have "b = b'" by (rule byteStep_inj_byte)
  with assms show False by simp
qed

text \<open>
  Known answers: the table entries for 1 and for \<open>0x9E\<close>, and the checksum of the one-byte
  input \<open>a\<close>, as the IEEE CRC-32 gives them.
\<close>

lemma ChecksumIEEE_Nil: "ChecksumIEEE [] = 0"
  by (simp add: ChecksumIEEE_def)

lemma funpow8: "(f ^^ 8) x = f (f (f (f (f (f (f (f x)))))))"
proof -
  have "(8::nat) = Suc (Suc (Suc (Suc (Suc (Suc (Suc (Suc 0)))))))" by simp
  then show ?thesis by (simp only: funpow.simps o_apply id_apply)
qed

lemma IEEETable_1: "IEEETable 1 = 0x77073096"
  by (simp add: IEEETable_def funpow8 polyStep_def IEEE_def)

lemma IEEETable_9E: "IEEETable 0x9E = 0x17B7BE43"
  by (simp add: IEEETable_def funpow8 polyStep_def IEEE_def)

lemma ChecksumIEEE_a: "ChecksumIEEE [0x61] = 0xE8B7BE43"
proof -
  have n: "NOT (0::uint32) = 0xFFFFFFFF" by simp
  have b: "(ucast (0xFFFFFFFF::uint32) :: byte) XOR 0x61 = 0x9E" by simp
  have "byteStep 0xFFFFFFFF 0x61 = 0x174841BC"
    unfolding byteStep_def b IEEETable_9E by simp
  then show ?thesis
    unfolding ChecksumIEEE_def n by simp
qed

text \<open>
  Claim C7. Decoding the header that \<open>jEncode\<close> builds from an operation tag, a 32-bit
  length and a 32-bit checksum gives back exactly that tag, length and checksum, and no
  error.
\<close>

theorem C7_header_roundtrip: "jDecode (jEncode op len crc) = Inr (op, len, crc)"
  by (simp add: jDecode_def jEncode_def length_PutUint32 Uint32_PutUint32)

text \<open>
  Claim C8. The header is always nine bytes: byte 0 is the operation tag (1 for Set, 2 for
  Unset), bytes 1 to 4 are the length and bytes 5 to 8 the checksum, each most significant
  byte first, so that the four bytes weighted by \<open>2^24\<close>, \<open>2^16\<close>, \<open>2^8\<close> and 1 sum to the
  unsigned value. \<open>jDecode\<close> returns an error exactly on the inputs whose length is not 9,
  and a result on every input of length 9.
\<close>

theorem C8_header_layout:
  "length (jEncode op len crc) = 9
   \<and> jEncode op len crc ! 0 = op \<and> OpSet = 1 \<and> OpUnset = 2
   \<and> take 4 (drop 1 (jEncode op len crc)) = PutUint32 len
   \<and> take 4 (drop 5 (jEncode op len crc)) = PutUint32 crc
   \<and> unat len = unat (jEncode op len crc ! 1) * 2 ^ 24 + unat (jEncode op len crc ! 2) * 2 ^ 16
                 + unat (jEncode op len crc ! 3) * 2 ^ 8 + unat (jEncode op len crc ! 4)
   \<and> unat crc = unat (jEncode op len crc ! 5) * 2 ^ 24 + unat (jEncode op len crc ! 6) * 2 ^ 16
                 + unat (jEncode op len crc ! 7) * 2 ^ 8 + unat (jEncode op len crc ! 8)
   \<and> ((\<exists>e. jDecode b = Inl e) = (length b \<noteq> 9))
   \<and> ((\<exists>r. jDecode b = Inr r) = (length b = 9))"
proof -
  have n1: "jEncode op len crc ! 1 = PutUint32 len ! 0" "jEncode op len crc ! 2 = PutUint32 len ! 1"
    "jEncode op len crc ! 3 = PutUint32 len ! 2" "jEncode op len crc ! 4 = PutUint32 len ! 3"
    by (simp_all add: jEncode_def PutUint32_def)
  have n2: "jEncode op len crc ! 5 = PutUint32 crc ! 0" "jEncode op len crc ! 6 = PutUint32 crc ! 1"
    "jEncode op len crc ! 7 = PutUint32 crc ! 2" "jEncode op len crc ! 8 = PutUint32 crc ! 3"
    by (simp_all add: jEncode_def PutUint32_def)
  have a: "length (jEncode op len crc) = 9" by (rule length_jEncode)
  have b: "jEncode op len crc ! 0 = op" by (simp add: jEncode_def)
  have c: "take 4 (drop 1 (jEncode op len crc)) = PutUint32 len"
    by (simp add: jEncode_def length_PutUint32)
  have d: "take 4 (drop 5 (jEncode op len crc)) = PutUint32 crc"
    by (simp add: jEncode_def length_PutUint32)
  have e: "unat len = unat (jEncode op len crc ! 1) * 2 ^ 24 + unat (jEncode op len crc ! 2) * 2 ^ 16
                 + unat (jEncode op len crc ! 3) * 2 ^ 8 + unat (jEncode op len crc ! 4)"
    unfolding n1 by (rule PutUint32_big_endian)
  have f: "unat crc = unat (jEncode op len crc ! 5) * 2 ^ 24 + unat (jEncode op len crc ! 6) * 2 ^ 16
                 + unat (jEncode op len crc ! 7) * 2 ^ 8 + unat (jEncode op len crc ! 8)"
    unfolding n2 by (rule PutUint32_big_endian)
  have g: "(\<exists>e. jDecode b = Inl e) = (length b \<noteq> 9)" by (simp add: jDecode_def)
  have h: "(\<exists>r. jDecode b = Inr r) = (length b = 9)" by (simp add: jDecode_def)
  show ?thesis using a b c d e f g h by (simp only: OpSet_def OpUnset_def simp_thms)
qed

section \<open>Properties of replay\<close>

lemma unat_of_nat_len32: "n < 2 ^ 32 \<Longrightarrow> unat (of_nat n :: uint32) = n"
  by (simp add: unat_of_nat)

lemma fileRead_header:
  "fileRead (jEncode op len crc @ rest) 9 = Inr (jEncode op len crc, rest)"
proof -
  have l: "length (jEncode op len crc) = 9" by (rule length_jEncode)
  then have "jEncode op len crc \<noteq> []" by auto
  with l show ?thesis by (simp add: fileRead_def)
qed

lemma fileRead_payload:
  "fileRead (p @ rest) (length p) = Inr (p, rest)"
  by (simp add: fileRead_def)

lemma playLoop_Nil: "playLoop g [] m = (None, m)"
  by (subst playLoop.simps) (simp add: fileRead_def)

lemma playLoop_frame:
  assumes "length p < 2 ^ 32"
  shows "playLoop g (frame op c p @ rest) m =
           (if ChecksumIEEE p \<noteq> c then (Some ErrJournalCorrupt, m)
            else (case decTx g p of
                    None \<Rightarrow> (Some (Wrapf ''decode tx'' GobError), m)
                  | Some tx \<Rightarrow> playLoop g rest (applyTx op tx m)))"
  apply (subst playLoop.simps)
  apply (simp only: frame_def append_assoc fileRead_header sum.case prod.case length_jEncode
      jDecode_jEncode unat_of_nat_len32[OF assms] fileRead_payload)
  apply simp
  done






lemma playLoop_records:
  assumes "\<forall>(op, tx, p) \<in> set recs. decTx g p = Some tx \<and> length p < 2 ^ 32"
  shows "playLoop g (concat (map (\<lambda>(op, tx, p). frame op (ChecksumIEEE p) p) recs) @ rest) m
           = playLoop g rest (foldl (\<lambda>m (op, tx, p). applyTx op tx m) m recs)"
  using assms
proof (induction recs arbitrary: m)
  case Nil
  then show ?case by simp
next
  case (Cons r recs)
  obtain op tx p where r: "r = (op, tx, p)" by (cases r) auto
  from Cons.prems r have d: "decTx g p = Some tx" and l: "length p < 2 ^ 32" by auto
  from Cons.prems have rest: "\<forall>(op, tx, p) \<in> set recs. decTx g p = Some tx \<and> length p < 2 ^ 32"
    by auto
  show ?case
    by (simp add: r playLoop_frame[OF l] d Cons.IH[OF rest])
qed

section \<open>Properties of the concrete codec\<close>

lemma char_of_byte_of_char: "char_of (unat (of_nat (of_char c) :: byte)) = c"
  by (simp add: unat_of_nat of_char_mod_256)

lemma sampleTx_roundtrip:
  assumes "sampleEncTx tx = Some p"
  shows "sampleDecTx p = Some tx"
proof -
  obtain k v where tx: "tx = \<lparr>Key = k, Value = v\<rparr>" by (cases tx) auto
  have lk: "length k < 256" using assms by (simp add: sampleEncTx_def tx split: if_splits)
  then have un: "unat (of_nat (length k) :: byte) = length k"
    by (simp add: unat_of_nat)
  have km: "map ((\<lambda>b. char_of (unat b)) \<circ> (\<lambda>c. of_nat (of_char c) :: byte)) k = k"
    by (simp add: o_def char_of_byte_of_char)
  have p: "p = of_nat (length k) # map (\<lambda>c. of_nat (of_char c)) k
                 @ (case v of None \<Rightarrow> [] | Some b \<Rightarrow> [b])"
    using assms lk by (simp add: sampleEncTx_def tx)
  show ?thesis
    unfolding p sampleDecTx_def tx
    by (cases v) (simp_all add: un km)
qed

lemma sampleMap_roundtrip_empty: "decMap sampleGob (the (encMap sampleGob Map.empty)) = Some Map.empty"
  by (simp add: sampleGob_def sampleKeys_def)

lemma sampleMap_roundtrip_foo:
  "decMap sampleGob (the (encMap sampleGob [''foo'' \<mapsto> Some 7])) = Some [''foo'' \<mapsto> Some 7]"
  by (simp add: sampleGob_def sampleKeys_def)

lemma decTx_samplePayload:
  "length k < 256 \<Longrightarrow> decTx sampleGob (samplePayload k v) = Some \<lparr>Key = k, Value = v\<rparr>"
  by (simp add: sampleGob_def samplePayload_def sampleTx_roundtrip sampleEncTx_def)

lemma encTx_samplePayload:
  "length k < 256 \<Longrightarrow> encTx sampleGob \<lparr>Key = k, Value = v\<rparr> = Some (samplePayload k v)"
  by (simp add: sampleGob_def samplePayload_def sampleEncTx_def)

lemma length_samplePayload:
  "length k < 256 \<Longrightarrow> length (samplePayload k v) = Suc (length k) + (case v of None \<Rightarrow> 0 | Some b \<Rightarrow> 1)"
  by (simp add: samplePayload_def sampleEncTx_def split: option.splits)

lemma New_sample:
  "New sampleGob \<lparr>files = Map.empty, faulty = False\<rparr> ''db'' ''wal'' = (sampleFs, Inr sampleKV)"
  by (simp add: New_def sampleGob_def sampleKeys_def createEmptyGob_def osCreate_def
      fileWrite_def newJournal_def sampleFs_def sampleKV_def)






section \<open>Properties of the buffered writer and of appending\<close>

lemma bufWrite_fits:
  "length p \<le> defaultBufSize - length (buf w) \<Longrightarrow> err w = None \<Longrightarrow>
     bufWrite fs h w nn p = (nn + length p, None, fs, w\<lparr>buf := buf w @ p\<rparr>)"
  by (subst bufWrite.simps) simp

lemma filesys_upd_same:
  "files fs k = Some c \<Longrightarrow> fs\<lparr>files := (files fs)(k \<mapsto> c)\<rparr> = fs"
  by (simp add: map_upd_triv)

lemma filesys_upd_upd:
  "(fs\<lparr>files := (files fs)(k \<mapsto> a)\<rparr>)\<lparr>files := (files (fs\<lparr>files := (files fs)(k \<mapsto> a)\<rparr>))(k \<mapsto> b)\<rparr>
     = fs\<lparr>files := (files fs)(k \<mapsto> b)\<rparr>"
  by (cases fs) simp

lemma journal_upd_same: "j\<lparr>bufWriter := bufWriter j\<rparr> = j"
  by simp

lemma bufFlush_ok:
  assumes "bufFlush fs h w = (None, fs', w')" and "files fs (path h) = Some c"
  shows "fs' = fs\<lparr>files := (files fs)(path h \<mapsto> c @ buf w)\<rparr> \<and> w' = w\<lparr>buf := []\<rparr> \<and> err w = None"
  using assms
  by (auto simp: bufFlush_def fileWrite_def map_upd_triv split: option.splits if_splits)


lemma bufFlush_err:
  "bufFlush fs h w = (Some e, fs', w') \<Longrightarrow> err w' \<noteq> None"
  by (auto simp: bufFlush_def fileWrite_def split: option.splits if_splits)


lemma bufFlush_other:
  "bufFlush fs h w = (r, fs', w') \<Longrightarrow>
     faulty fs' = faulty fs \<and> (\<forall>k. k \<noteq> path h \<longrightarrow> files fs' k = files fs k)"
  by (auto simp: bufFlush_def fileWrite_def split: option.splits if_splits)

lemma bufWrite_pending_err:
  "err w = Some e \<Longrightarrow> bufWrite fs h w nn p = (nn, Some e, fs, w)"
  by (subst bufWrite.simps) simp


lemma bufWrite_ok:
  "bufWrite fs h w nn p = (n, None, fs', w') \<Longrightarrow> files fs (path h) = Some c \<Longrightarrow>
     \<exists>c'. fs' = fs\<lparr>files := (files fs)(path h \<mapsto> c')\<rparr> \<and> c' @ buf w' = c @ buf w @ p
          \<and> n = nn + length p \<and> err w' = None"
proof (induction fs h w nn p arbitrary: c rule: bufWrite.induct)
  case (1 fs h w nn p)
  show ?case
  proof (cases "length p > defaultBufSize - length (buf w) \<and> err w = None")
    case False
    with "1.prems"(1) have r: "err w = None" "fs' = fs" "w' = w\<lparr>buf := buf w @ p\<rparr>" "n = nn + length p"
      by (subst (asm) bufWrite.simps, auto split: option.splits)+
    have tr: "fs\<lparr>files := (files fs)(path h \<mapsto> c)\<rparr> = fs"
      by (rule filesys_upd_same[OF "1.prems"(2)])
    have "fs' = fs\<lparr>files := (files fs)(path h \<mapsto> c)\<rparr>" unfolding tr by (rule r(2))
    moreover have "c @ buf w' = c @ buf w @ p" by (simp add: r(3))
    moreover have "err w' = None" by (simp add: r(1,3))
    ultimately show ?thesis using r(4) by blast
  next
    case True
    show ?thesis
    proof (cases "buf w = []")
      case e: True
      obtain n0 e0 fs0 where fw: "fileWrite fs h p = (n0, e0, fs0)" by (cases "fileWrite fs h p") auto
      from "1.prems"(1) True e fw
      have rc: "bufWrite fs0 h (w\<lparr>err := e0\<rparr>) (nn + n0) (drop n0 p) = (n, None, fs', w')"
        by (subst (asm) bufWrite.simps) simp
      have e0: "e0 = None"
      proof (cases e0)
        case (Some x)
        with rc bufWrite_pending_err[of "w\<lparr>err := e0\<rparr>" x fs0 h "nn + n0" "drop n0 p"]
        show ?thesis by simp
      qed simp
      with fw "1.prems"(2) have f0: "n0 = length p" "fs0 = fs\<lparr>files := (files fs)(path h \<mapsto> c @ p)\<rparr>"
        by (auto simp: fileWrite_def split: if_splits)
      then have fc: "files fs0 (path h) = Some (c @ p)" by simp
      from "1.IH"(1)[OF True e fw[symmetric] refl rc fc]
      obtain c' where c': "fs' = fs0\<lparr>files := (files fs0)(path h \<mapsto> c')\<rparr>"
        "c' @ buf w' = (c @ p) @ buf (w\<lparr>err := e0\<rparr>) @ drop n0 p" "n = nn + n0 + length (drop n0 p)"
        "err w' = None" by blast
      have "fs' = fs\<lparr>files := (files fs)(path h \<mapsto> c')\<rparr>"
        using c'(1) unfolding f0(2) by (simp only: filesys_upd_upd)
      moreover have "c' @ buf w' = c @ buf w @ p" using c'(2) f0(1) e by simp
      moreover have "n = nn + length p" using c'(3) f0(1) by simp
      ultimately show ?thesis using c'(4) by blast
    next
      case ne: False
      define k where "k = min (defaultBufSize - length (buf w)) (length p)"
      obtain e0 fs0 w0 where bf: "bufFlush fs h (w\<lparr>buf := buf w @ take k p\<rparr>) = (e0, fs0, w0)"
        by (cases "bufFlush fs h (w\<lparr>buf := buf w @ take k p\<rparr>)") auto
      from "1.prems"(1) True ne bf
      have rc: "bufWrite fs0 h w0 (nn + k) (drop k p) = (n, None, fs', w')"
        by (subst (asm) bufWrite.simps) (simp add: k_def Let_def)
      have e0: "e0 = None"
      proof (cases e0)
        case (Some x)
        with bf bufFlush_err[of fs h "w\<lparr>buf := buf w @ take k p\<rparr>" x fs0 w0]
        obtain y where "err w0 = Some y" by auto
        with rc bufWrite_pending_err[of w0 y fs0 h "nn + k" "drop k p"]
        show ?thesis by simp
      qed simp
      from bufFlush_ok[OF bf[unfolded e0] "1.prems"(2)]
      have f0: "fs0 = fs\<lparr>files := (files fs)(path h \<mapsto> c @ buf w @ take k p)\<rparr>"
        "w0 = w\<lparr>buf := []\<rparr>" by simp_all
      then have fc: "files fs0 (path h) = Some (c @ buf w @ take k p)" by simp
      from "1.IH"(2)[OF True ne k_def bf[symmetric] refl rc fc]
      obtain c' where c': "fs' = fs0\<lparr>files := (files fs0)(path h \<mapsto> c')\<rparr>"
        "c' @ buf w' = (c @ buf w @ take k p) @ buf w0 @ drop k p" "n = nn + k + length (drop k p)"
        "err w' = None" by blast
      have kl: "k \<le> length p" by (simp add: k_def)
      have "fs' = fs\<lparr>files := (files fs)(path h \<mapsto> c')\<rparr>"
        using c'(1) unfolding f0(1) by (simp only: filesys_upd_upd)
      moreover have "c' @ buf w' = c @ buf w @ p" using c'(2) f0(2) by simp
      moreover have "n = nn + length p" using c'(3) kl by simp
      ultimately show ?thesis using c'(4) by blast
    qed
  qed
qed


lemma log_ok:
  assumes "log g fs j op key val = (None, fs', j')" and "files fs (path (fh j)) = Some c"
  shows "\<exists>payload c' w'. encTx g \<lparr>Key = key, Value = val\<rparr> = Some payload
           \<and> length payload < 2 ^ 32
           \<and> fs' = fs\<lparr>files := (files fs)(path (fh j) \<mapsto> c')\<rparr>
           \<and> j' = j\<lparr>bufWriter := w'\<rparr> \<and> err w' = None
           \<and> c' @ buf w' = c @ buf (bufWriter j) @ frame op (ChecksumIEEE payload) payload"
proof -
  from assms(1) obtain payload where enc: "encTx g \<lparr>Key = key, Value = val\<rparr> = Some payload"
    by (auto simp: log_def split: option.splits)
  define header where "header = jEncode op (of_nat (length payload)) (ChecksumIEEE payload)"
  obtain n1 e1 fs1 w1 where b1: "bufWrite fs (fh j) (bufWriter j) 0 header = (n1, e1, fs1, w1)"
    by (cases "bufWrite fs (fh j) (bufWriter j) 0 header") auto
  from assms(1) enc b1 have e1: "e1 = None"
    by (auto simp: log_def Let_def header_def split: option.splits)
  obtain n2 e2 fs2 w2 where b2: "bufWrite fs1 (fh j) w1 0 payload = (n2, e2, fs2, w2)"
    by (cases "bufWrite fs1 (fh j) w1 0 payload") auto
  from assms(1) enc b1 e1 b2 have e2: "e2 = None"
    by (auto simp: log_def Let_def header_def split: option.splits if_splits)
  from assms(1) enc b1 e1 b2 e2 have res: "fs' = fs2" "j' = j\<lparr>bufWriter := w2\<rparr>"
    "n2 = unat (of_nat (length payload) :: uint32)"
    by (auto simp: log_def Let_def header_def split: option.splits if_splits)
  from bufWrite_ok[OF b1[unfolded e1] assms(2)] obtain c1
    where c1: "fs1 = fs\<lparr>files := (files fs)(path (fh j) \<mapsto> c1)\<rparr>"
      "c1 @ buf w1 = c @ buf (bufWriter j) @ header" by blast
  then have f1: "files fs1 (path (fh j)) = Some c1" by simp
  from bufWrite_ok[OF b2[unfolded e2] f1] obtain c2
    where c2: "fs2 = fs1\<lparr>files := (files fs1)(path (fh j) \<mapsto> c2)\<rparr>"
      "c2 @ buf w2 = c1 @ buf w1 @ payload" "n2 = 0 + length payload" "err w2 = None" by blast
  have "unat (of_nat (length payload) :: uint32) < 2 ^ LENGTH(32)" by (rule unsigned_less)
  with res(3) c2(3) have len: "length payload < 2 ^ 32" by simp
  have fse: "fs' = fs\<lparr>files := (files fs)(path (fh j) \<mapsto> c2)\<rparr>"
    unfolding res(1) c2(1) c1(1) by (simp only: filesys_upd_upd)
  have st: "c2 @ buf w2 = c @ buf (bufWriter j) @ frame op (ChecksumIEEE payload) payload"
    using c2(2) c1(2) by (simp add: frame_def header_def)
  from enc len fse res(2) c2(4) st show ?thesis by blast
qed




lemma jEncode_not_Nil: "jEncode op len crc \<noteq> []"
  by (simp add: jEncode_def)


lemma logAll_ok:
  "logAll g fs j ops = (None, fs1, j1) \<Longrightarrow> files fs (path (fh j)) = Some c \<Longrightarrow>
     \<exists>c' w'. fs1 = fs\<lparr>files := (files fs)(path (fh j) \<mapsto> c')\<rparr> \<and> j1 = j\<lparr>bufWriter := w'\<rparr>
        \<and> c' @ buf w' = c @ buf (bufWriter j) @ concat (map (recordBytes g) ops)
        \<and> (\<forall>(op, key, val) \<in> set ops.
              \<exists>p. encTx g \<lparr>Key = key, Value = val\<rparr> = Some p \<and> length p < 2 ^ 32)"
proof (induction ops arbitrary: fs j c)
  case Nil
  then have e: "fs1 = fs" "j1 = j" by simp_all
  have 1: "fs1 = fs\<lparr>files := (files fs)(path (fh j) \<mapsto> c)\<rparr>"
    unfolding e by (rule filesys_upd_same[OF Nil.prems(2), symmetric])
  have 2: "j1 = j\<lparr>bufWriter := bufWriter j\<rparr>" unfolding e by simp
  have 3: "c @ buf (bufWriter j) = c @ buf (bufWriter j) @ concat (map (recordBytes g) [])" by simp
  have 4: "\<forall>(op, key, val) \<in> set [].
              \<exists>p. encTx g \<lparr>Key = key, Value = val\<rparr> = Some p \<and> length p < 2 ^ 32" by simp
  from 1 2 3 4 show ?case by blast
next
  case (Cons r ops)
  obtain op key val where r: "r = (op, key, val)" by (cases r) auto
  obtain e fsa ja where lg: "log g fs j op key val = (e, fsa, ja)"
    by (cases "log g fs j op key val") auto
  from Cons.prems(1) r lg have eN: "e = None" and rest: "logAll g fsa ja ops = (None, fs1, j1)"
    by (auto split: option.splits)
  from log_ok[OF lg[unfolded eN] Cons.prems(2)] obtain p ca wa where
    lo: "encTx g \<lparr>Key = key, Value = val\<rparr> = Some p" "length p < 2 ^ 32"
      "fsa = fs\<lparr>files := (files fs)(path (fh j) \<mapsto> ca)\<rparr>" "ja = j\<lparr>bufWriter := wa\<rparr>"
      "ca @ buf wa = c @ buf (bufWriter j) @ frame op (ChecksumIEEE p) p" by blast
  have fa: "files fsa (path (fh ja)) = Some ca" using lo(3,4) by simp
  from Cons.IH[OF rest fa] obtain c' w' where
    ih: "fs1 = fsa\<lparr>files := (files fsa)(path (fh ja) \<mapsto> c')\<rparr>" "j1 = ja\<lparr>bufWriter := w'\<rparr>"
      "c' @ buf w' = ca @ buf (bufWriter ja) @ concat (map (recordBytes g) ops)"
      "\<forall>(op, key, val) \<in> set ops.
              \<exists>p. encTx g \<lparr>Key = key, Value = val\<rparr> = Some p \<and> length p < 2 ^ 32" by blast
  have rb: "recordBytes g r = frame op (ChecksumIEEE p) p" by (simp add: recordBytes_def r lo(1))
  have fhja: "fh ja = fh j" using lo(4) by simp
  have 1: "fs1 = fs\<lparr>files := (files fs)(path (fh j) \<mapsto> c')\<rparr>"
    using ih(1) unfolding fhja lo(3) by (simp only: filesys_upd_upd)
  have 2: "j1 = j\<lparr>bufWriter := w'\<rparr>" using ih(2) lo(4) by simp
  have 3: "c' @ buf w' = c @ buf (bufWriter j) @ concat (map (recordBytes g) (r # ops))"
    using ih(3) lo(4,5) rb by simp
  have 4: "\<forall>(op, key, val) \<in> set (r # ops).
              \<exists>p. encTx g \<lparr>Key = key, Value = val\<rparr> = Some p \<and> length p < 2 ^ 32"
    using ih(4) lo(1,2) r by simp
  from 1 2 3 4 show ?case by blast
qed

lemma playLoop_recordBytes:
  assumes "\<forall>(op, key, val) \<in> set rs.
             \<exists>p. encTx g \<lparr>Key = key, Value = val\<rparr> = Some p \<and> length p < 2 ^ 32"
    and "\<forall>tx p. encTx g tx = Some p \<longrightarrow> decTx g p \<noteq> None"
  shows "\<exists>m'. playLoop g (concat (map (recordBytes g) rs) @ rest) m = playLoop g rest m'"
  using assms(1)
proof (induction rs arbitrary: m)
  case Nil
  have "playLoop g (concat (map (recordBytes g) []) @ rest) m = playLoop g rest m" by simp
  then show ?case by blast
next
  case (Cons r rs)
  obtain op key val where r: "r = (op, key, val)" by (cases r) auto
  from Cons.prems r obtain p where p: "encTx g \<lparr>Key = key, Value = val\<rparr> = Some p" "length p < 2 ^ 32"
    by auto
  from assms(2) p(1) obtain tx where tx: "decTx g p = Some tx" by blast
  from Cons.prems have "\<forall>(op, key, val) \<in> set rs.
             \<exists>p. encTx g \<lparr>Key = key, Value = val\<rparr> = Some p \<and> length p < 2 ^ 32" by simp
  from Cons.IH[OF this, of "applyTx op tx m"] obtain m' where
    "playLoop g (concat (map (recordBytes g) rs) @ rest) (applyTx op tx m) = playLoop g rest m'" by blast
  then have "playLoop g (concat (map (recordBytes g) (r # rs)) @ rest) m = playLoop g rest m'"
    by (simp add: r recordBytes_def p(1) playLoop_frame[OF p(2)] tx)
  then show ?case by blast
qed

lemma dump_ok:
  assumes "dump g fs kv = (None, fs')"
  shows "\<not> faulty fs \<and> (\<exists>content. encMap g (memory kv) = Some content
           \<and> fs' = fs\<lparr>files := (files fs)(fileName kv \<mapsto> content)\<rparr>)"
  using assms
  by (cases fs)
     (auto simp: dump_def osCreate_def fileWrite_def fileClose_def
           split: if_splits sum.splits option.splits prod.splits)

lemma truncate_ok:
  assumes "truncate fs j = (None, fs', j')"
  shows "\<exists>fsf. faulty fsf = faulty fs \<and> (\<forall>k. k \<noteq> path (fh j) \<longrightarrow> files fsf k = files fs k)
           \<and> \<not> faulty fsf \<and> fs' = fsf\<lparr>files := (files fsf)(name j \<mapsto> [])\<rparr>"
proof -
  obtain r fsf w' where bf: "bufFlush fs (fh j) (bufWriter j) = (r, fsf, w')"
    by (cases "bufFlush fs (fh j) (bufWriter j)") auto
  from assms bf have "\<not> faulty fsf \<and> fs' = fsf\<lparr>files := (files fsf)(name j \<mapsto> [])\<rparr>"
    by (auto simp: truncate_def close_def flush_def fileClose_def osCreate_def
          split: if_splits sum.splits option.splits prod.splits)
  with bufFlush_other[OF bf] show ?thesis by blast
qed

section \<open>Replay: corrupt records and unknown tags\<close>

text \<open>
  Claim C3. Let the journal hold any number of records that are each valid (the checksum
  field is the checksum of the payload and the payload decodes), then a record whose
  checksum field differs from the CRC-32 of its payload, then anything. \<open>play\<close> returns
  \<open>ErrJournalCorrupt\<close> itself, and the map it leaves is the starting map with the preceding
  records applied first to last; nothing is rolled back.
\<close>

theorem C3_replay_checksum_mismatch:
  assumes "files fs filename =
             Some (concat (map (\<lambda>(op, tx, p). frame op (ChecksumIEEE p) p) recs)
                   @ frame bop c bp @ rest)"
    and "\<forall>(op, tx, p) \<in> set recs. decTx g p = Some tx \<and> length p < 2 ^ 32"
    and "length bp < 2 ^ 32" and "c \<noteq> ChecksumIEEE bp"
  shows "play g fs filename m
           = (Some ErrJournalCorrupt, foldl (\<lambda>m (op, tx, p). applyTx op tx m) m recs)"
  using assms(4)
  by (simp add: play_def assms(1) playLoop_records[OF assms(2)] playLoop_frame[OF assms(3)])

theorem C3_witness:
  "play sampleGob
        (sampleFs\<lparr>files := (files sampleFs)(''wal'' \<mapsto>
           concat (map (\<lambda>(op, tx, p). frame op (ChecksumIEEE p) p)
             [(OpSet, \<lparr>Key = ''foo'', Value = Some 7\<rparr>, samplePayload ''foo'' (Some 7)),
              (OpUnset, \<lparr>Key = ''bar'', Value = None\<rparr>, samplePayload ''bar'' None)])
           @ frame OpSet (ChecksumIEEE (samplePayload ''foo'' (Some 9)) + 1)
               (samplePayload ''foo'' (Some 9)) @ [])\<rparr>)
        ''wal'' [''bar'' \<mapsto> Some 1]
     = (Some ErrJournalCorrupt, [''bar'' \<mapsto> Some 1, ''foo'' \<mapsto> Some 7](''bar'' := None))"
  apply (subst C3_replay_checksum_mismatch[where
        recs = "[(OpSet, \<lparr>Key = ''foo'', Value = Some 7\<rparr>, samplePayload ''foo'' (Some 7)),
                 (OpUnset, \<lparr>Key = ''bar'', Value = None\<rparr>, samplePayload ''bar'' None)]"
        and bop = OpSet and c = "ChecksumIEEE (samplePayload ''foo'' (Some 9)) + 1"
        and bp = "samplePayload ''foo'' (Some 9)" and rest = "[]"])
      apply (simp add: sampleFs_def)
     apply (simp add: decTx_samplePayload length_samplePayload)
    apply (simp add: length_samplePayload)
   apply simp
  apply (simp add: applyTx_def OpSet_def OpUnset_def)
  done

text \<open>
  Claim C10. A record whose tag is neither \<open>OpSet\<close> nor \<open>OpUnset\<close> (the tag 0 included) goes
  through the same checks as any other: a checksum mismatch is \<open>ErrJournalCorrupt\<close> and an
  undecodable payload is a decode error. When both checks pass, the map is left as it was
  and the loop goes on with the bytes after the record. The tag itself is never an error.
\<close>

theorem C10_unknown_tag_skipped:
  assumes "op \<noteq> OpSet" and "op \<noteq> OpUnset" and "length p < 2 ^ 32"
  shows "playLoop g (frame op c p @ rest) m =
           (if ChecksumIEEE p \<noteq> c then (Some ErrJournalCorrupt, m)
            else (case decTx g p of
                    None \<Rightarrow> (Some (Wrapf ''decode tx'' GobError), m)
                  | Some tx \<Rightarrow> playLoop g rest m))"
  by (simp add: playLoop_frame[OF assms(3)] applyTx_def assms(1,2) split: option.splits)

theorem C10_witness:
  "(0::byte) \<noteq> OpSet \<and> (0::byte) \<noteq> OpUnset \<and> length (samplePayload ''foo'' (Some 7)) < 2 ^ 32
   \<and> playLoop sampleGob
         (frame 0 (ChecksumIEEE (samplePayload ''foo'' (Some 7))) (samplePayload ''foo'' (Some 7))
          @ frame OpSet (ChecksumIEEE (samplePayload ''bar'' (Some 2))) (samplePayload ''bar'' (Some 2)))
         Map.empty
       = (None, [''bar'' \<mapsto> Some 2])"
proof -
  have a: "(0::byte) \<noteq> OpSet" by (simp add: OpSet_def)
  have b: "(0::byte) \<noteq> OpUnset" by (simp add: OpUnset_def)
  have c: "length (samplePayload ''foo'' (Some 7)) < 2 ^ 32" by (simp add: length_samplePayload)
  have d: "length (samplePayload ''bar'' (Some 2)) < 2 ^ 32" by (simp add: length_samplePayload)
  have e: "playLoop sampleGob
             (frame OpSet (ChecksumIEEE (samplePayload ''bar'' (Some 2))) (samplePayload ''bar'' (Some 2)))
             Map.empty = (None, [''bar'' \<mapsto> Some 2])"
    using playLoop_frame[OF d, of sampleGob OpSet "ChecksumIEEE (samplePayload ''bar'' (Some 2))" "[]" Map.empty]
    by (simp add: decTx_samplePayload playLoop_Nil applyTx_def)
  show ?thesis
    using a b c C10_unknown_tag_skipped[OF a b c, of sampleGob
        "ChecksumIEEE (samplePayload ''foo'' (Some 7))"
        "frame OpSet (ChecksumIEEE (samplePayload ''bar'' (Some 2))) (samplePayload ''bar'' (Some 2))"
        Map.empty]
    by (simp add: decTx_samplePayload e)
qed

section \<open>The store: Set and Unset\<close>

text \<open>
  \<open>Set\<close> on a ready store whose mutex is free: it returns a nil error whatever the journal
  append returned, error or not, and the map afterwards binds the key to the value; the
  file system and journal are the ones the append left. The example has an append that
  fails.
\<close>

lemma Set_returns_nil_unlocked:
  assumes "ready kv" and "\<not> mu kv"
    and "log g fs (journal kv) OpSet key val = (e, fs', j')"
  shows "Set g fs kv key val = Some (None, fs', kv\<lparr>memory := (memory kv)(key \<mapsto> val), journal := j'\<rparr>)
         \<and> memory (kv\<lparr>memory := (memory kv)(key \<mapsto> val), journal := j'\<rparr>) key = Some val"
  using assms by (simp add: Set_def Lock_def Unlock_def)

lemma Set_returns_nil_failing_append:
  "ready sampleKV \<and> \<not> mu sampleKV
   \<and> log sampleGob sampleFs (journal sampleKV) OpSet (replicate 256 CHR ''k'') (Some 7)
       = (Some (Wrapf ''encode tx'' GobError), sampleFs, journal sampleKV)
   \<and> Set sampleGob sampleFs sampleKV (replicate 256 CHR ''k'') (Some 7)
       = Some (None, sampleFs,
               sampleKV\<lparr>memory := (memory sampleKV)(replicate 256 CHR ''k'' \<mapsto> Some 7),
                          journal := journal sampleKV\<rparr>)
   \<and> memory (sampleKV\<lparr>memory := (memory sampleKV)(replicate 256 CHR ''k'' \<mapsto> Some 7),
                          journal := journal sampleKV\<rparr>) (replicate 256 CHR ''k'') = Some (Some 7)"
proof -
  have r: "ready sampleKV" and m: "\<not> mu sampleKV" by (simp_all add: sampleKV_def)
  have l: "log sampleGob sampleFs (journal sampleKV) OpSet (replicate 256 CHR ''k'') (Some 7)
             = (Some (Wrapf ''encode tx'' GobError), sampleFs, journal sampleKV)"
    by (simp add: log_def sampleGob_def sampleEncTx_def)
  show ?thesis
    using r m l Set_returns_nil_unlocked[OF r m l] by simp
qed

text \<open>
  \<open>Unset\<close> of an absent key on a ready store whose mutex is free: it returns \<open>(true, nil)\<close>;
  the file system is unchanged and so is the journal, handle and buffer alike. The store
  differs from the one before the call only in its mutex, which the early return leaves
  held.
\<close>

lemma Unset_absent_unlocked:
  assumes "ready kv" and "\<not> mu kv" and "memory kv key = None"
  shows "Unset g fs kv key = Some ((True, None), fs, kv\<lparr>mu := True\<rparr>)"
  using assms by (simp add: Unset_def Lock_def)

lemma Unset_absent_unlocked_sample:
  "ready sampleKV \<and> \<not> mu sampleKV \<and> memory sampleKV ''missing'' = None
   \<and> Unset sampleGob sampleFs sampleKV ''missing'' = Some ((True, None), sampleFs, sampleKV\<lparr>mu := True\<rparr>)"
  using Unset_absent_unlocked[of sampleKV "''missing''" sampleGob sampleFs]
  by (simp add: sampleKV_def)

text \<open>
  What \<open>Unset\<close> does and does not do: it never changes the map; when the key is present
  and the append returns nil, the journal (file content followed by buffer) grows by exactly
  the one Unset record; and after the early return for an absent key the mutex stays held,
  so that every later operation that locks it does not return.
\<close>

lemma Unset_memory_unchanged:
  "Unset g fs kv key = Some (r, fs', kv') \<Longrightarrow> memory kv' = memory kv"
  by (auto simp: Unset_def Lock_def Unlock_def Let_def split: if_splits option.splits prod.splits)

lemma Unset_present_journals:
  assumes "ready kv" and "\<not> mu kv" and "memory kv key = Some x"
    and "files fs (path (fh (journal kv))) = Some c"
    and "Unset g fs kv key = Some ((True, None), fs', kv')"
  shows "\<exists>p c'. encTx g \<lparr>Key = key, Value = None\<rparr> = Some p
           \<and> files fs' (path (fh (journal kv))) = Some c'
           \<and> c' @ buf (bufWriter (journal kv'))
               = c @ buf (bufWriter (journal kv)) @ frame OpUnset (ChecksumIEEE p) p"
proof -
  from assms(1,2,3,5) obtain j' where lg: "log g fs (journal kv) OpUnset key None = (None, fs', j')"
    and j': "journal kv' = j'"
    by (auto simp: Unset_def Lock_def Unlock_def Let_def split: option.splits prod.splits)
  from log_ok[OF lg assms(4)] j' show ?thesis by auto
qed

lemma Unset_absent_leaves_mutex_held:
  assumes "ready kv" and "\<not> mu kv" and "memory kv key = None"
    and "Unset g fs kv key = Some (r, fs', kv')"
  shows "mu kv' \<and> Get kv' k2 = None \<and> Set g fs' kv' k2 v = None \<and> Unset g fs' kv' k2 = None
         \<and> Coalesce g fs' kv' = None \<and> Close fs' kv' = None"
  using assms
  by (auto simp: Unset_def Get_def Set_def Coalesce_def Close_def Lock_def split: if_splits)

text \<open>
  Claim C9. The claim is that on every open, ready store \<open>Unset\<close> of an absent key returns
  \<open>(true, nil)\<close>. The early return of \<open>Unset\<close> skips the unlock: on the store that \<open>New\<close>
  returns, the first \<open>Unset\<close> of the absent key \<open>missing\<close> returns \<open>(true, nil)\<close> and leaves
  a store that is still ready, still without the key, and whose mutex is held; on that
  store the same call does not return.
\<close>

theorem C9_Unset_absent_again_blocks:
  "ready sampleKV \<and> memory sampleKV ''missing'' = None
   \<and> Unset sampleGob sampleFs sampleKV ''missing''
       = Some ((True, None), sampleFs, sampleKV\<lparr>mu := True\<rparr>)
   \<and> ready (sampleKV\<lparr>mu := True\<rparr>) \<and> memory (sampleKV\<lparr>mu := True\<rparr>) ''missing'' = None
   \<and> Unset sampleGob sampleFs (sampleKV\<lparr>mu := True\<rparr>) ''missing'' = None"
  by (simp add: Unset_def Lock_def sampleKV_def)

text \<open>
  Claim C4. The claim is that on every open, ready store \<open>Set\<close> returns nil and the map
  binds the key to the value. On the ready store that one \<open>Unset\<close> of an absent key leaves,
  \<open>Set\<close> blocks on the held mutex: it does not return, and the map is never written.
\<close>

theorem C4_Set_blocks_after_Unset_absent:
  "Unset sampleGob sampleFs sampleKV ''missing''
     = Some ((True, None), sampleFs, sampleKV\<lparr>mu := True\<rparr>)
   \<and> ready (sampleKV\<lparr>mu := True\<rparr>)
   \<and> Set sampleGob sampleFs (sampleKV\<lparr>mu := True\<rparr>) ''foo'' (Some 7) = None"
  by (simp add: Unset_def Set_def Lock_def sampleKV_def)

text \<open>
  Claim C1. The claim is that \<open>Unset\<close> of a present key removes it from the map. The source
  appends the Unset record and never deletes the key: on the store whose map binds
  \<open>foo\<close> to 1, \<open>Unset foo\<close> returns \<open>(true, nil)\<close> with the record in the journal's buffer,
  the map still binds \<open>foo\<close> to 1, and the \<open>Get\<close> that follows finds it.
\<close>

theorem C1_Unset_leaves_key_in_memory:
  "Unset sampleGob sampleFs (sampleKV\<lparr>memory := [''foo'' \<mapsto> Some 1]\<rparr>) ''foo''
     = Some ((True, None), sampleFs,
             sampleKV\<lparr>memory := [''foo'' \<mapsto> Some 1],
                        journal := (journal sampleKV)\<lparr>bufWriter :=
                          \<lparr>buf = frame OpUnset (ChecksumIEEE (samplePayload ''foo'' None))
                                   (samplePayload ''foo'' None),
                           err = None\<rparr>\<rparr>\<rparr>)
   \<and> Get (sampleKV\<lparr>memory := [''foo'' \<mapsto> Some 1],
                        journal := (journal sampleKV)\<lparr>bufWriter :=
                          \<lparr>buf = frame OpUnset (ChecksumIEEE (samplePayload ''foo'' None))
                                   (samplePayload ''foo'' None),
                           err = None\<rparr>\<rparr>\<rparr>) ''foo''
     = Some ((Some 1, True, None),
             sampleKV\<lparr>memory := [''foo'' \<mapsto> Some 1],
                        journal := (journal sampleKV)\<lparr>bufWriter :=
                          \<lparr>buf = frame OpUnset (ChecksumIEEE (samplePayload ''foo'' None))
                                   (samplePayload ''foo'' None),
                           err = None\<rparr>\<rparr>\<rparr>)"
  by (simp add: Unset_def Get_def Lock_def Unlock_def log_def sampleKV_def encTx_samplePayload
      length_samplePayload bufWrite_fits length_jEncode NewWriter_def defaultBufSize_def frame_def)

section \<open>Durability: reopening after Set and Flush, and after Coalesce\<close>

text \<open>
  The state in which \<open>New\<close> leaves a store and its two files, when they are two files: the
  store is ready with its mutex free, the journal file is empty with a fresh handle and an
  empty buffer on it, and the snapshot file holds either the content that was loaded or the
  encoding of the empty map.
\<close>

lemma New_establishes:
  assumes "New g fs0 db wal = (fs, Inr kv)" and "db \<noteq> wal"
  shows "ready kv \<and> \<not> mu kv \<and> fileName kv = db \<and> name (journal kv) = wal
         \<and> fh (journal kv) = \<lparr>path = wal, closed = False\<rparr> \<and> bufWriter (journal kv) = NewWriter
         \<and> files fs wal = Some [] \<and> \<not> faulty fs
         \<and> (\<exists>snap. files fs db = Some snap
               \<and> (case files fs0 db of
                     Some old \<Rightarrow> snap = old \<and> decMap g snap \<noteq> None
                   | None \<Rightarrow> encMap g Map.empty = Some snap))"
proof (cases "files fs0 db")
  case None
  with assms show ?thesis
    by (auto simp: New_def createEmptyGob_def osCreate_def fileWrite_def newJournal_def
          split: if_splits option.splits sum.splits prod.splits)
next
  case (Some old)
  with assms show ?thesis
    by (auto simp: New_def loadFromGob_def osCreate_def newJournal_def
          split: if_splits option.splits sum.splits prod.splits)
qed




text \<open>
  Claim C5. After a \<open>Coalesce\<close> that returns nil, on a store whose journal handle is open on
  the journal file and whose snapshot file is a different file, the journal file is empty;
  and when the snapshot codec returns the map from its own encoding, \<open>New\<close> on the two
  files succeeds with a map equal to the one before \<open>Coalesce\<close>.
\<close>

theorem C5_Coalesce_reopen:
  assumes "Coalesce g fs kv = Some (None, fs1, kv1)"
    and "path (fh (journal kv)) = name (journal kv)"
    and "fileName kv \<noteq> name (journal kv)"
    and "encMap g (memory kv) = Some content" and "decMap g content = Some (memory kv)"
  shows "files fs1 (name (journal kv)) = Some []
         \<and> (\<exists>fs2 kv2. New g fs1 (fileName kv) (name (journal kv)) = (fs2, Inr kv2)
               \<and> memory kv2 = memory kv)"
proof -
  let ?j = "journal kv"
  from assms(1) obtain fsd j' where d: "dump g fs (kv\<lparr>mu := True\<rparr>) = (None, fsd)"
    and t: "truncate fsd ?j = (None, fs1, j')"
    by (auto simp: Coalesce_def Lock_def split: if_splits prod.splits option.splits)
  from dump_ok[OF d] assms(4)
  have fsd: "fsd = fs\<lparr>files := (files fs)(fileName kv \<mapsto> content)\<rparr>" by simp
  from truncate_ok[OF t] obtain fsf where
    f: "\<forall>k. k \<noteq> path (fh ?j) \<longrightarrow> files fsf k = files fsd k" "\<not> faulty fsf"
      "fs1 = fsf\<lparr>files := (files fsf)(name ?j \<mapsto> [])\<rparr>" by blast
  have wal: "files fs1 (name ?j) = Some []" using f(3) by simp
  have snap: "files fs1 (fileName kv) = Some content"
    using f(1,3) fsd assms(2,3) by simp
  have nf: "\<not> faulty fs1" using f(2,3) by simp
  define kv2 :: "'a KV" where "kv2 = \<lparr>memory = memory kv, fileName = fileName kv,
      journal = \<lparr>fh = \<lparr>path = name ?j, closed = False\<rparr>, bufWriter = NewWriter, name = name ?j\<rparr>,
      mu = False, ready = True\<rparr>"
  have "New g fs1 (fileName kv) (name ?j) = (fs1\<lparr>files := (files fs1)(name ?j \<mapsto> [])\<rparr>, Inr kv2)"
    using nf by (simp add: New_def loadFromGob_def snap assms(5) newJournal_def play_def wal
        playLoop_Nil osCreate_def kv2_def)
  moreover have "memory kv2 = memory kv" by (simp add: kv2_def)
  ultimately show ?thesis using wal by blast
qed

theorem C5_witness:
  "Coalesce sampleGob sampleFs
     (sampleKV\<lparr>memory := [''foo'' \<mapsto> Some 7],
                journal := (journal sampleKV)\<lparr>bufWriter :=
                  \<lparr>buf = frame OpSet (ChecksumIEEE (samplePayload ''foo'' (Some 7)))
                           (samplePayload ''foo'' (Some 7)),
                   err = None\<rparr>\<rparr>\<rparr>)
     = Some (None, \<lparr>files = [''db'' \<mapsto> [2, 7, 0], ''wal'' \<mapsto> []], faulty = False\<rparr>,
             sampleKV\<lparr>memory := [''foo'' \<mapsto> Some 7]\<rparr>)
   \<and> files \<lparr>files = [''db'' \<mapsto> [2, 7, 0], ''wal'' \<mapsto> []], faulty = False\<rparr> ''wal'' = Some []
   \<and> (\<exists>fs2 kv2.
         New sampleGob \<lparr>files = [''db'' \<mapsto> [2, 7, 0], ''wal'' \<mapsto> []], faulty = False\<rparr> ''db'' ''wal''
           = (fs2, Inr kv2)
         \<and> memory kv2 = [''foo'' \<mapsto> Some 7])"
proof -
  let ?kv = "sampleKV\<lparr>memory := [''foo'' \<mapsto> Some 7],
                journal := (journal sampleKV)\<lparr>bufWriter :=
                  \<lparr>buf = frame OpSet (ChecksumIEEE (samplePayload ''foo'' (Some 7)))
                           (samplePayload ''foo'' (Some 7)),
                   err = None\<rparr>\<rparr>\<rparr>"
  let ?fs1 = "\<lparr>files = [''db'' \<mapsto> [2, 7, 0], ''wal'' \<mapsto> []], faulty = False\<rparr>"
  have a1: "Coalesce sampleGob sampleFs ?kv = Some (None, ?fs1, sampleKV\<lparr>memory := [''foo'' \<mapsto> Some 7]\<rparr>)"
    by (simp add: Coalesce_def Lock_def Unlock_def dump_def osCreate_def fileWrite_def fileClose_def
        truncate_def close_def flush_def bufFlush_def sampleGob_def sampleKeys_def sampleKV_def
        sampleFs_def NewWriter_def frame_def jEncode_def fun_upd_twist)
  have a2: "path (fh (journal ?kv)) = name (journal ?kv)" by (simp add: sampleKV_def)
  have a3: "fileName ?kv \<noteq> name (journal ?kv)" by (simp add: sampleKV_def)
  have a4: "encMap sampleGob (memory ?kv) = Some [2, 7, 0]"
    by (simp add: sampleGob_def sampleKeys_def)
  have a5: "decMap sampleGob [2, 7, 0] = Some (memory ?kv)"
    by (simp add: sampleGob_def sampleKeys_def)
  from C5_Coalesce_reopen[OF a1 a2 a3 a4 a5] a1 show ?thesis
    by (simp add: sampleKV_def)
qed

section \<open>Corruption of a payload byte\<close>

text \<open>
  How a replay error reaches the caller of \<open>New\<close>: wrapped twice, and still recognised by
  \<open>errors.Is\<close>.
\<close>

lemma New_journal_corrupt:
  assumes "files fs db = Some snap" and "decMap g snap = Some m0"
    and "files fs wal = Some content"
    and "play g fs wal m0 = (Some ErrJournalCorrupt, m')"
  shows "New g fs db wal = (fs, Inl (Wrapf ''creating journal'' (Wrapf ''play'' ErrJournalCorrupt)))
         \<and> errorsIs (Wrapf ''creating journal'' (Wrapf ''play'' ErrJournalCorrupt)) ErrJournalCorrupt"
  using assms by (simp add: New_def loadFromGob_def newJournal_def)

text \<open>
  Claim C6. Start from a freshly created journal (empty file, empty buffer), append a list
  of operations with \<open>log\<close>, every append returning nil, and flush. The file then holds the
  records one after the other. Replace one byte inside the payload of any record, the
  \<open>i\<close>-th byte of the payload of the \<open>n\<close>-th record, by a different byte. If the decoder
  accepts what the encoder emits (so that the records before the changed one replay), then
  \<open>play\<close> on the changed file returns \<open>ErrJournalCorrupt\<close>, and \<open>newJournal\<close> fails with that
  error wrapped.
\<close>

theorem C6_payload_byte_change_detected:
  assumes "files fs (name j) = Some []" and "buf (bufWriter j) = []" and "path (fh j) = name j"
    and "logAll g fs j ops = (None, fs1, j1)"
    and "flush fs1 j1 = (None, fs2, j2)"
    and "\<forall>tx p. encTx g tx = Some p \<longrightarrow> decTx g p \<noteq> None"
    and "n < length ops" and "ops ! n = (op, key, val)"
    and "encTx g \<lparr>Key = key, Value = val\<rparr> = Some p"
    and "i < length p" and "b \<noteq> p ! i"
  shows "files fs2 (name j) = Some (concat (map (recordBytes g) ops))
         \<and> concat (map (recordBytes g) ops) ! (length (concat (map (recordBytes g) (take n ops))) + 9 + i)
             = p ! i
         \<and> (\<exists>m'. play g
                    (fs2\<lparr>files := (files fs2)(name j \<mapsto>
                       (concat (map (recordBytes g) ops))
                         [length (concat (map (recordBytes g) (take n ops))) + 9 + i := b])\<rparr>)
                    (name j) m
                  = (Some ErrJournalCorrupt, m'))
         \<and> snd (newJournal g
                    (fs2\<lparr>files := (files fs2)(name j \<mapsto>
                       (concat (map (recordBytes g) ops))
                         [length (concat (map (recordBytes g) (take n ops))) + 9 + i := b])\<rparr>)
                    (name j) m)
             = Inl (Wrapf ''play'' ErrJournalCorrupt)"
proof -
  let ?R = "recordBytes g"
  let ?pre = "concat (map ?R (take n ops))"
  let ?post = "concat (map ?R (drop (Suc n) ops))"
  let ?hdr = "jEncode op (of_nat (length p)) (ChecksumIEEE p)"
  have fc: "files fs (path (fh j)) = Some []" using assms(1,3) by simp
  from logAll_ok[OF assms(4) fc] obtain c' w' where
    la: "fs1 = fs\<lparr>files := (files fs)(path (fh j) \<mapsto> c')\<rparr>" "j1 = j\<lparr>bufWriter := w'\<rparr>"
      "c' @ buf w' = [] @ buf (bufWriter j) @ concat (map ?R ops)"
      "\<forall>(op, key, val) \<in> set ops.
              \<exists>p. encTx g \<lparr>Key = key, Value = val\<rparr> = Some p \<and> length p < 2 ^ 32" by blast
  obtain w2 where bf: "bufFlush fs1 (fh j1) (bufWriter j1) = (None, fs2, w2)"
    using assms(5) by (auto simp: flush_def split: prod.splits option.splits)
  have f1: "files fs1 (path (fh j1)) = Some c'" using la(1,2) by simp
  from bufFlush_ok[OF bf f1]
  have fs2: "fs2 = fs1\<lparr>files := (files fs1)(path (fh j1) \<mapsto> c' @ buf (bufWriter j1))\<rparr>" by simp
  have content: "files fs2 (name j) = Some (concat (map ?R ops))"
    using fs2 la(1,2,3) assms(2,3) by simp
  have lp: "length p < 2 ^ 32"
    using la(4) assms(7,8,9) nth_mem[OF assms(7)] by fastforce
  have rn: "?R (ops ! n) = ?hdr @ p" by (simp add: recordBytes_def assms(8,9) frame_def)
  have split: "concat (map ?R ops) = ?pre @ (?hdr @ p) @ ?post"
    using id_take_nth_drop[OF assms(7)] rn
    by (metis concat.simps(2) concat_append list.simps(9) map_append)
  have l9: "length ?hdr = 9" by (rule length_jEncode)
  have nth: "concat (map ?R ops) ! (length ?pre + 9 + i) = p ! i"
    unfolding split using l9 assms(10) by (simp add: nth_append)
  have upd: "(concat (map ?R ops))[length ?pre + 9 + i := b] = ?pre @ (?hdr @ p[i := b]) @ ?post"
    unfolding split using l9 assms(10) by (simp add: list_update_append)
  have pi: "p = take i p @ p ! i # drop (Suc i) p" by (rule id_take_nth_drop[OF assms(10)])
  have pb: "p[i := b] = take i p @ b # drop (Suc i) p" by (rule upd_conv_take_nth_drop[OF assms(10)])
  have crc: "ChecksumIEEE (p[i := b]) \<noteq> ChecksumIEEE p"
    using ChecksumIEEE_byte_change[OF assms(11), of "take i p" "drop (Suc i) p"] pi pb by metis
  have bad: "?hdr @ p[i := b] = frame op (ChecksumIEEE p) (p[i := b])" by (simp add: frame_def)
  have lb: "length (p[i := b]) < 2 ^ 32" using lp by simp
  have pre_ok: "\<forall>(op, key, val) \<in> set (take n ops).
              \<exists>p. encTx g \<lparr>Key = key, Value = val\<rparr> = Some p \<and> length p < 2 ^ 32"
    using la(4) by (meson in_set_takeD)
  from playLoop_recordBytes[OF pre_ok assms(6), of "(?hdr @ p[i := b]) @ ?post" m] obtain m' where
    "playLoop g (?pre @ (?hdr @ p[i := b]) @ ?post) m = playLoop g ((?hdr @ p[i := b]) @ ?post) m'"
    by blast
  also have "\<dots> = (Some ErrJournalCorrupt, m')"
    unfolding bad using crc by (simp add: playLoop_frame[OF lb])
  finally have pl: "play g (fs2\<lparr>files := (files fs2)(name j \<mapsto>
                    (concat (map ?R ops))[length ?pre + 9 + i := b])\<rparr>) (name j) m
                  = (Some ErrJournalCorrupt, m')"
    by (simp add: play_def upd)
  then have "snd (newJournal g (fs2\<lparr>files := (files fs2)(name j \<mapsto>
                    (concat (map ?R ops))[length ?pre + 9 + i := b])\<rparr>) (name j) m)
               = Inl (Wrapf ''play'' ErrJournalCorrupt)"
    by (simp add: newJournal_def)
  with content nth pl show ?thesis by blast
qed

theorem C6_witness:
  "logAll sampleGob sampleFs (journal sampleKV) [(OpSet, ''foo'', Some 7), (OpUnset, ''foo'', None)]
     = (None, sampleFs,
        (journal sampleKV)\<lparr>bufWriter :=
           \<lparr>buf = recordBytes sampleGob (OpSet, ''foo'', Some 7)
                    @ recordBytes sampleGob (OpUnset, ''foo'', None),
            err = None\<rparr>\<rparr>)
   \<and> samplePayload ''foo'' None ! 2 = 111
   \<and> (\<exists>m'. play sampleGob
               (sampleFs\<lparr>files := (files sampleFs)(''wal'' \<mapsto>
                  (recordBytes sampleGob (OpSet, ''foo'', Some 7)
                   @ recordBytes sampleGob (OpUnset, ''foo'', None))
                  [length (recordBytes sampleGob (OpSet, ''foo'', Some 7)) + 9 + 2 := 112])\<rparr>)
               ''wal'' Map.empty
             = (Some ErrJournalCorrupt, m'))"
proof -
  let ?j = "journal sampleKV"
  let ?ops = "[(OpSet, ''foo'', Some (7::byte)), (OpUnset, ''foo'', None)]"
  let ?r1 = "recordBytes sampleGob (OpSet, ''foo'', Some 7)"
  let ?r2 = "recordBytes sampleGob (OpUnset, ''foo'', None)"
  let ?j1 = "?j\<lparr>bufWriter := \<lparr>buf = ?r1 @ ?r2, err = None\<rparr>\<rparr>"
  let ?fs2 = "sampleFs\<lparr>files := (files sampleFs)(''wal'' \<mapsto> ?r1 @ ?r2)\<rparr>"
  have a1: "files sampleFs (name ?j) = Some []" by (simp add: sampleFs_def sampleKV_def)
  have a2: "buf (bufWriter ?j) = []" by (simp add: sampleKV_def NewWriter_def)
  have a3: "path (fh ?j) = name ?j" by (simp add: sampleKV_def)
  have a4: "logAll sampleGob sampleFs ?j ?ops = (None, sampleFs, ?j1)"
    by (simp add: log_def sampleKV_def encTx_samplePayload recordBytes_def
        length_samplePayload bufWrite_fits length_jEncode NewWriter_def defaultBufSize_def frame_def)
  have a5: "flush sampleFs ?j1 = (None, ?fs2, ?j1\<lparr>bufWriter := \<lparr>buf = [], err = None\<rparr>\<rparr>)"
    by (simp add: flush_def bufFlush_def fileWrite_def sampleKV_def sampleFs_def recordBytes_def
        encTx_samplePayload frame_def jEncode_def)
  have a6: "\<forall>tx p. encTx sampleGob tx = Some p \<longrightarrow> decTx sampleGob p \<noteq> None"
    by (simp add: sampleGob_def sampleTx_roundtrip)
  have a7: "1 < length ?ops" by simp
  have a8: "?ops ! 1 = (OpUnset, ''foo'', None)" by simp
  have a9: "encTx sampleGob \<lparr>Key = ''foo'', Value = None\<rparr> = Some (samplePayload ''foo'' None)"
    by (simp add: encTx_samplePayload)
  have a10: "2 < length (samplePayload ''foo'' None)" by (simp add: length_samplePayload)
  have v: "samplePayload ''foo'' None ! 2 = 111" by (simp add: samplePayload_def sampleEncTx_def)
  then have a11: "112 \<noteq> samplePayload ''foo'' None ! 2" by simp
  from C6_payload_byte_change_detected[OF a1 a2 a3 a4 a5 a6 a7 a8 a9 a10 a11, of Map.empty]
  have "\<exists>m'. play sampleGob
               (sampleFs\<lparr>files := (files sampleFs)(''wal'' \<mapsto>
                  (?r1 @ ?r2)[length ?r1 + 9 + 2 := 112])\<rparr>)
               ''wal'' Map.empty
             = (Some ErrJournalCorrupt, m')"
    by (simp add: sampleKV_def)
  with a4 v show ?thesis by blast
qed

end
